theory Spec2Isabelle
  imports Complex_Main "HOL-Library.Word"
begin

section \<open>SelfieStick.ino: the data of the sketch\<close>

text \<open>
  The sketch keeps its whole state in file-scope variables and in \<^verbatim>\<open>static\<close> locals, and
  its constants are meant to be adjusted ("Adjust the pins and add LEDs if you want to. Set
  the timings accordingly. Configure the force tilt lowpass filter"). The constants are
  therefore the fields of a record \<open>config\<close>; \<open>sketch\<close> below holds the values written
  in the source.

  Integer widths are those of the AVR boards: \<^verbatim>\<open>unsigned int\<close> has 16 bits and
  \<^verbatim>\<open>unsigned long\<close> (the type of \<^verbatim>\<open>millis()\<close>) has 32 bits; subtraction of
  two clock values wraps around. Pin numbers only name outputs and are natural numbers.
  The counters \<^verbatim>\<open>ledIndex\<close> and \<^verbatim>\<open>i\<close> are \<^verbatim>\<open>int\<close>; they never leave the range
  from 0 to the number of LEDs, because an array access outside the array is an error
  of the model before the counter moves on.
\<close>

datatype States =
    WAIT_FOR_LIFT
  | BLINK_LEDS
  | TRIGGER_SHOT
  | SHOT_DONE
  | PAUSE

datatype PinMode = INPUT | OUTPUT | INPUT_PULLUP

datatype error = ArrayIndexOutOfBounds

abbreviation HIGH :: bool where "HIGH \<equiv> True"
abbreviation LOW :: bool where "LOW \<equiv> False"

record config =
  TILT_PIN :: nat
  RELAIS_PIN :: nat
  LED_PINS :: "nat list"
  BLINK_SEQUENCE :: "16 word"
  AFTER_LAST_LED :: "16 word"
  RELAIS_TRIGGER_TIME :: "16 word"
  PAUSE_AFTER_SHOT :: "16 word"
  LOW_PASS :: real
  THRESHOLD_HIGH :: real
  THRESHOLD_LOW :: real

text \<open>
  Float arithmetic is exact arithmetic followed by the rounding of the target, which is
  not part of the sketch: it is the parameter \<open>fl\<close> of everything that computes with
  \<^verbatim>\<open>float\<close>. The literal \<^verbatim>\<open>0.7f\<close> is \<open>fl 0.7\<close>.
\<close>

definition sketch :: "(real \<Rightarrow> real) \<Rightarrow> config" where
  "sketch fl =
     \<lparr> TILT_PIN = 12, RELAIS_PIN = 3, LED_PINS = [4, 5, 6],
       BLINK_SEQUENCE = 1500, AFTER_LAST_LED = 500,
       RELAIS_TRIGGER_TIME = 20, PAUSE_AFTER_SHOT = 5000,
       LOW_PASS = fl 0.5, THRESHOLD_HIGH = fl 0.7, THRESHOLD_LOW = fl 0.3 \<rparr>"

definition LED_COUNT :: "config \<Rightarrow> int" where
  "LED_COUNT cfg = int (length (LED_PINS cfg))"

text \<open>\<^verbatim>\<open>LED_PINS[i]\<close>: reading outside the array is undefined in C++, an error here.\<close>

definition LED_PINS_at :: "config \<Rightarrow> int \<Rightarrow> error + nat" where
  "LED_PINS_at cfg i =
     (if 0 \<le> i \<and> i < LED_COUNT cfg then Inr (LED_PINS cfg ! nat i)
      else Inl ArrayIndexOutOfBounds)"

text \<open>
  The variables of the sketch: the global \<open>state\<close>, the static locals of
  \<^verbatim>\<open>isTilted\<close> (\<open>tilted\<close>, \<open>tiltLevel\<close>) and of \<^verbatim>\<open>shotCycle\<close> (\<open>ledIndex\<close>,
  \<open>timer\<close>), and the board's output levels and pin modes.
\<close>

record system =
  state :: States
  tilted :: bool
  tiltLevel :: real
  ledIndex :: int
  timer :: "32 word"
  pins :: "nat \<Rightarrow> bool"
  modes :: "nat \<Rightarrow> PinMode"

text \<open>After power-on every variable is zero-initialised and every pin is a low input.\<close>

definition power_on :: system where
  "power_on =
     \<lparr> state = WAIT_FOR_LIFT, tilted = False, tiltLevel = 0, ledIndex = 0, timer = 0,
       pins = (\<lambda>p. LOW), modes = (\<lambda>p. INPUT) \<rparr>"

definition pinMode :: "nat \<Rightarrow> PinMode \<Rightarrow> system \<Rightarrow> system" where
  "pinMode p m s = s\<lparr>modes := (modes s)(p := m)\<rparr>"

definition digitalWrite :: "nat \<Rightarrow> bool \<Rightarrow> system \<Rightarrow> system" where
  "digitalWrite p v s = s\<lparr>pins := (pins s)(p := v)\<rparr>"

section \<open>The functions of the sketch\<close>

text \<open>
  \<^verbatim>\<open>for(int i = 0; i < LED_COUNT; i++) { body(LED_PINS[i]); }\<close>, the loop of
  \<^verbatim>\<open>setup\<close> and of \<^verbatim>\<open>reset\<close>, started at \<open>i\<close>.
\<close>

function for_LED_PINS ::
  "config \<Rightarrow> (nat \<Rightarrow> system \<Rightarrow> system) \<Rightarrow> int \<Rightarrow> system \<Rightarrow> error + system" where
  "for_LED_PINS cfg body i s =
     (if i < LED_COUNT cfg then
        (case LED_PINS_at cfg i of
           Inl e \<Rightarrow> Inl e
         | Inr p \<Rightarrow> for_LED_PINS cfg body (i + 1) (body p s))
      else Inr s)"
  by pat_completeness auto
termination
  by (relation "measure (\<lambda>(cfg, body, i, s). nat (LED_COUNT cfg - i))") auto

definition setup_board :: "config \<Rightarrow> system \<Rightarrow> error + system" where
  "setup_board cfg s =
     (case for_LED_PINS cfg (\<lambda>p. pinMode p OUTPUT) 0
             (pinMode (RELAIS_PIN cfg) OUTPUT (pinMode (TILT_PIN cfg) INPUT_PULLUP s)) of
        Inl e \<Rightarrow> Inl e
      | Inr s' \<Rightarrow> Inr (s'\<lparr>state := WAIT_FOR_LIFT\<rparr>))"

definition reset :: "config \<Rightarrow> States \<Rightarrow> system \<Rightarrow> error + system" where
  "reset cfg newState s =
     (case for_LED_PINS cfg (\<lambda>p. digitalWrite p LOW) 0
             (digitalWrite (RELAIS_PIN cfg) LOW s) of
        Inl e \<Rightarrow> Inl e
      | Inr s' \<Rightarrow> Inr (s'\<lparr>state := newState\<rparr>))"

text \<open>
  \<^verbatim>\<open>isTilted\<close>: \<open>pin\<close> is what \<^verbatim>\<open>digitalRead(TILT_PIN)\<close> returns, \<open>HIGH\<close> or
  \<open>LOW\<close>, cast to 1.0 or 0.0. Each of the three float operations of the filter rounds.
\<close>

definition isTilted :: "(real \<Rightarrow> real) \<Rightarrow> config \<Rightarrow> bool \<Rightarrow> system \<Rightarrow> bool \<times> system" where
  "isTilted fl cfg pin s =
     (let newTilt = (if pin then 1 else 0);
          s1 = s\<lparr>tiltLevel := fl (tiltLevel s + fl (fl (newTilt - tiltLevel s) * LOW_PASS cfg))\<rparr>;
          s2 = (if (\<not> tilted s1 \<and> tiltLevel s1 \<ge> THRESHOLD_HIGH cfg) \<or>
                   (tilted s1 \<and> tiltLevel s1 \<le> THRESHOLD_LOW cfg)
                then s1\<lparr>tilted := \<not> tilted s1\<rparr> else s1)
      in (tilted s2, s2))"

text \<open>
  \<^verbatim>\<open>shotCycle\<close>: every branch reads the clock once; \<open>millis\<close> is that reading. The
  durations are converted to \<^verbatim>\<open>unsigned long\<close> for the comparison.
\<close>

definition shotCycle :: "config \<Rightarrow> 32 word \<Rightarrow> system \<Rightarrow> error + system" where
  "shotCycle cfg millis s =
     (case state s of
        WAIT_FOR_LIFT \<Rightarrow>
          (let s1 = s\<lparr>ledIndex := 0, timer := millis\<rparr> in
           case LED_PINS_at cfg (ledIndex s1) of
             Inl e \<Rightarrow> Inl e
           | Inr p \<Rightarrow>
               Inr ((digitalWrite p HIGH (s1\<lparr>ledIndex := ledIndex s1 + 1\<rparr>))
                      \<lparr>state := BLINK_LEDS\<rparr>))
      | BLINK_LEDS \<Rightarrow>
          (let now = millis in
           if now - timer s \<ge> ucast (BLINK_SEQUENCE cfg) then
             (let s1 = s\<lparr>timer := now\<rparr> in
              case LED_PINS_at cfg (ledIndex s1) of
                Inl e \<Rightarrow> Inl e
              | Inr p \<Rightarrow>
                  (let s2 = digitalWrite p HIGH (s1\<lparr>ledIndex := ledIndex s1 + 1\<rparr>) in
                   if ledIndex s2 = LED_COUNT cfg then Inr (s2\<lparr>state := TRIGGER_SHOT\<rparr>)
                   else Inr s2))
           else Inr s)
      | TRIGGER_SHOT \<Rightarrow>
          (let now = millis in
           if now - timer s \<ge> ucast (AFTER_LAST_LED cfg) then
             Inr ((digitalWrite (RELAIS_PIN cfg) HIGH (s\<lparr>timer := now\<rparr>))
                    \<lparr>state := SHOT_DONE\<rparr>)
           else Inr s)
      | SHOT_DONE \<Rightarrow>
          (let now = millis in
           if now - timer s \<ge> ucast (RELAIS_TRIGGER_TIME cfg) then
             reset cfg PAUSE (s\<lparr>timer := now\<rparr>)
           else Inr s)
      | PAUSE \<Rightarrow>
          (let now = millis in
           if now - timer s \<ge> ucast (PAUSE_AFTER_SHOT cfg) then
             Inr (s\<lparr>state := WAIT_FOR_LIFT\<rparr>)
           else Inr s))"

text \<open>
  \<^verbatim>\<open>loop\<close>: one tick. \<open>pin\<close> is the reading of the tilt pin and \<open>millis\<close> the
  reading of the clock in this tick; the \<^verbatim>\<open>delay(10)\<close> only spaces the ticks.
\<close>

definition loop :: "(real \<Rightarrow> real) \<Rightarrow> config \<Rightarrow> bool \<Rightarrow> 32 word \<Rightarrow> system \<Rightarrow> error + system" where
  "loop fl cfg pin millis s =
     (case isTilted fl cfg pin s of
        (t, s1) \<Rightarrow>
          if t then shotCycle cfg millis s1
          else if state s1 \<noteq> WAIT_FOR_LIFT then reset cfg WAIT_FOR_LIFT s1
          else Inr s1)"

text \<open>The board runs \<^verbatim>\<open>setup\<close> once and then \<^verbatim>\<open>loop\<close> forever: a run over a list of
  readings, one pair per tick, that stops at the first error.\<close>

fun ticks :: "(real \<Rightarrow> real) \<Rightarrow> config \<Rightarrow> (bool \<times> 32 word) list \<Rightarrow> system \<Rightarrow> error + system" where
  "ticks fl cfg [] s = Inr s"
| "ticks fl cfg ((pin, millis) # rest) s =
     (case loop fl cfg pin millis s of
        Inl e \<Rightarrow> Inl e
      | Inr s' \<Rightarrow> ticks fl cfg rest s')"

definition boot :: "(real \<Rightarrow> real) \<Rightarrow> config \<Rightarrow> (bool \<times> 32 word) list \<Rightarrow> error + system" where
  "boot fl cfg readings =
     (case setup_board cfg power_on of
        Inl e \<Rightarrow> Inl e
      | Inr s \<Rightarrow> ticks fl cfg readings s)"

text \<open>\<^verbatim>\<open>shotCycle\<close> called at each of a list of clock readings (the tilt signal held).\<close>

fun shotCycles :: "config \<Rightarrow> 32 word list \<Rightarrow> system \<Rightarrow> error + system" where
  "shotCycles cfg [] s = Inr s"
| "shotCycles cfg (millis # rest) s =
     (case shotCycle cfg millis s of
        Inl e \<Rightarrow> Inl e
      | Inr s' \<Rightarrow> shotCycles cfg rest s')"

section \<open>Runs used in the statements\<close>

text \<open>The states that \<^verbatim>\<open>isTilted\<close> goes through when it is called once per tick on a
  list of pin readings: the state before the first call, then the state after each call.\<close>

fun isTilted_states :: "(real \<Rightarrow> real) \<Rightarrow> config \<Rightarrow> bool list \<Rightarrow> system \<Rightarrow> system list" where
  "isTilted_states fl cfg [] s = [s]"
| "isTilted_states fl cfg (pin # rest) s =
     s # isTilted_states fl cfg rest (snd (isTilted fl cfg pin s))"

text \<open>
  The clock readings at which a cycle that starts at \<open>t0\<close> changes state when the tilt
  signal is held: \<open>countdown_times t d m\<close> are \<open>m\<close> readings spaced by \<open>d\<close> after
  \<open>t\<close>, one for each LED after the first.
\<close>

fun countdown_times :: "32 word \<Rightarrow> 32 word \<Rightarrow> nat \<Rightarrow> 32 word list" where
  "countdown_times t d 0 = []"
| "countdown_times t d (Suc m) = (t + d) # countdown_times (t + d) d m"

definition cycle_times :: "config \<Rightarrow> 32 word \<Rightarrow> 32 word list" where
  "cycle_times cfg t0 =
     (let t1 = t0 + of_nat (length (LED_PINS cfg) - 1) * ucast (BLINK_SEQUENCE cfg);
          t2 = t1 + ucast (AFTER_LAST_LED cfg);
          t3 = t2 + ucast (RELAIS_TRIGGER_TIME cfg);
          t4 = t3 + ucast (PAUSE_AFTER_SHOT cfg)
      in t0 # countdown_times t0 (ucast (BLINK_SEQUENCE cfg)) (length (LED_PINS cfg) - 1)
           @ [t2, t3, t4])"

text \<open>The duration that \<^verbatim>\<open>shotCycle\<close> compares \<^verbatim>\<open>now - timer\<close> with in each state;
  \<open>WAIT_FOR_LIFT\<close> waits for nothing.\<close>

definition duration :: "config \<Rightarrow> States \<Rightarrow> 32 word" where
  "duration cfg st =
     (case st of
        WAIT_FOR_LIFT \<Rightarrow> 0
      | BLINK_LEDS \<Rightarrow> ucast (BLINK_SEQUENCE cfg)
      | TRIGGER_SHOT \<Rightarrow> ucast (AFTER_LAST_LED cfg)
      | SHOT_DONE \<Rightarrow> ucast (RELAIS_TRIGGER_TIME cfg)
      | PAUSE \<Rightarrow> ucast (PAUSE_AFTER_SHOT cfg))"

text \<open>
  A list of clock readings lies within a cycle that is under way in \<open>s\<close> when every
  call of \<^verbatim>\<open>shotCycle\<close> comes before the cycle is back in \<open>WAIT_FOR_LIFT\<close> and no later
  than the moment the duration of the current state has elapsed: no tick is late, so
  every change of state happens at a tick that arrives exactly at its boundary.
\<close>

fun within_cycle :: "config \<Rightarrow> 32 word list \<Rightarrow> system \<Rightarrow> bool" where
  "within_cycle cfg [] s = True"
| "within_cycle cfg (now # rest) s =
     (state s \<noteq> WAIT_FOR_LIFT \<and> now - timer s \<le> duration cfg (state s) \<and>
      (case shotCycle cfg now s of
         Inl e \<Rightarrow> False
       | Inr s' \<Rightarrow> within_cycle cfg rest s'))"

text \<open>The states of a cycle that started at \<open>t0\<close> from \<open>s0\<close> and has not missed a
  boundary: the countdown with \<open>j\<close> LEDs on, then \<open>TRIGGER_SHOT\<close>, \<open>SHOT_DONE\<close> and
  \<open>PAUSE\<close>, each with the time of its boundary in \<open>timer\<close>.\<close>

definition cycle_inv :: "config \<Rightarrow> 32 word \<Rightarrow> system \<Rightarrow> system \<Rightarrow> bool" where
  "cycle_inv cfg t0 s0 s \<longleftrightarrow>
     (\<exists>j. 1 \<le> j \<and> j < length (LED_PINS cfg) \<and>
        s = s0\<lparr>state := BLINK_LEDS, ledIndex := int j,
               timer := t0 + of_nat (j - 1) * ucast (BLINK_SEQUENCE cfg),
               pins := (\<lambda>p. if p \<in> set (take j (LED_PINS cfg)) then HIGH else pins s0 p)\<rparr>) \<or>
     s = s0\<lparr>state := TRIGGER_SHOT, ledIndex := int (length (LED_PINS cfg)),
            timer := t0 + of_nat (length (LED_PINS cfg) - 1) * ucast (BLINK_SEQUENCE cfg),
            pins := (\<lambda>p. if p \<in> set (LED_PINS cfg) then HIGH else pins s0 p)\<rparr> \<or>
     s = s0\<lparr>state := SHOT_DONE, ledIndex := int (length (LED_PINS cfg)),
            timer := t0 + of_nat (length (LED_PINS cfg) - 1) * ucast (BLINK_SEQUENCE cfg)
                       + ucast (AFTER_LAST_LED cfg),
            pins := (\<lambda>p. if p = RELAIS_PIN cfg \<or> p \<in> set (LED_PINS cfg) then HIGH
                         else pins s0 p)\<rparr> \<or>
     s = s0\<lparr>state := PAUSE, ledIndex := int (length (LED_PINS cfg)),
            timer := t0 + of_nat (length (LED_PINS cfg) - 1) * ucast (BLINK_SEQUENCE cfg)
                       + ucast (AFTER_LAST_LED cfg) + ucast (RELAIS_TRIGGER_TIME cfg),
            pins := (\<lambda>p. if p = RELAIS_PIN cfg \<or> p \<in> set (LED_PINS cfg) then LOW
                         else pins s0 p)\<rparr>"

text \<open>
  What the statements about the filter level need of the target's rounding: it is
  monotone, exact on 0 and idempotent (a float rounds to itself), the negation of a float
  is a float, on the unit interval it rounds up by at most \<open>eps\<close>, and \<open>1 + eps\<close>
  does not round above 1. Exact arithmetic has these properties with \<open>eps = 0\<close>
  (lemma \<open>float_rounding_exact\<close>), IEEE single precision with rounding to nearest has
  them with \<open>eps = 1 / 2 ^ 25\<close>, half the spacing of the floats below 1 (lemma
  \<open>float_rounding_binary32\<close>).
\<close>

definition float_rounding :: "(real \<Rightarrow> real) \<Rightarrow> real \<Rightarrow> bool" where
  "float_rounding fl eps \<longleftrightarrow>
     (\<forall>x y. x \<le> y \<longrightarrow> fl x \<le> fl y) \<and>
     fl 0 = 0 \<and>
     (\<forall>x. fl (fl x) = fl x) \<and>
     (\<forall>x. fl (- fl x) = - fl x) \<and>
     (\<forall>x. 0 \<le> x \<and> x \<le> 1 \<longrightarrow> fl x \<le> x + eps) \<and>
     fl (1 + eps) \<le> 1"

text \<open>
  IEEE 754 single precision, rounding to nearest, ties to even, for results below the
  overflow threshold (the filter never leaves the unit interval): 24 significant bits,
  exponents from -126, subnormal numbers below. \<open>rne\<close> rounds a real to the nearest
  integer, ties to even; \<open>binary32_ulp x\<close> is the distance between the floats around
  \<open>x\<close>.
\<close>

definition rne :: "real \<Rightarrow> int" where
  "rne y =
     (let f = \<lfloor>y\<rfloor> in
      if y - of_int f < 1 / 2 then f
      else if 1 / 2 < y - of_int f then f + 1
      else if even f then f else f + 1)"

definition binary32_exponent :: "real \<Rightarrow> int" where
  "binary32_exponent x = max \<lfloor>log 2 \<bar>x\<bar>\<rfloor> (- 126)"

definition binary32_ulp :: "real \<Rightarrow> real" where
  "binary32_ulp x = 2 powr (of_int (binary32_exponent x) - 23)"

definition binary32 :: "real \<Rightarrow> real" where
  "binary32 x =
     (if x = 0 then 0
      else sgn x * (of_int (rne (\<bar>x\<bar> / binary32_ulp x)) * binary32_ulp x))"

text \<open>The sketch with its two thresholds exchanged, against the comments
  \<^verbatim>\<open>// >= 0.5\<close> and \<^verbatim>\<open>// < 0.5\<close> beside them.\<close>

definition misconfigured :: config where
  "misconfigured = (sketch (\<lambda>x. x))\<lparr>THRESHOLD_HIGH := 0.3, THRESHOLD_LOW := 0.7\<rparr>"

section \<open>The loop over the LED pins\<close>

lemma LED_PINS_at_in_range:
  "0 \<le> i \<Longrightarrow> i < LED_COUNT cfg \<Longrightarrow> LED_PINS_at cfg i = Inr (LED_PINS cfg ! nat i)"
  by (simp add: LED_PINS_at_def)

declare for_LED_PINS.simps [simp del]

text \<open>The loop writes \<open>v\<close> to every LED pin from index \<open>i\<close> on and never leaves the array.\<close>

lemma for_LED_PINS_digitalWrite:
  "0 \<le> i \<Longrightarrow>
   for_LED_PINS cfg (\<lambda>p. digitalWrite p v) i s =
     Inr (s\<lparr>pins := (\<lambda>p. if p \<in> set (drop (nat i) (LED_PINS cfg)) then v else pins s p)\<rparr>)"
proof (induction cfg "\<lambda>p. digitalWrite p v" i s rule: for_LED_PINS.induct)
  case (1 cfg i s)
  show ?case
  proof (cases "i < LED_COUNT cfg")
    case True
    with 1(2) have at: "LED_PINS_at cfg i = Inr (LED_PINS cfg ! nat i)"
      by (simp add: LED_PINS_at_in_range)
    from True 1(2) have lt: "nat i < length (LED_PINS cfg)"
      by (simp add: LED_COUNT_def)
    have dr: "drop (nat i) (LED_PINS cfg) = LED_PINS cfg ! nat i # drop (nat (i + 1)) (LED_PINS cfg)"
      using lt 1(2) by (simp add: Cons_nth_drop_Suc nat_add_distrib)
    have "for_LED_PINS cfg (\<lambda>p. digitalWrite p v) i s =
          for_LED_PINS cfg (\<lambda>p. digitalWrite p v) (i + 1) (digitalWrite (LED_PINS cfg ! nat i) v s)"
      using True at by (subst for_LED_PINS.simps) simp
    also have "\<dots> =
        Inr ((digitalWrite (LED_PINS cfg ! nat i) v s)
          \<lparr>pins := (\<lambda>p. if p \<in> set (drop (nat (i + 1)) (LED_PINS cfg)) then v
                        else pins (digitalWrite (LED_PINS cfg ! nat i) v s) p)\<rparr>)"
      using 1(1) [OF True at] 1(2) by simp
    also have "\<dots> =
        Inr (s\<lparr>pins := (\<lambda>p. if p \<in> set (drop (nat i) (LED_PINS cfg)) then v else pins s p)\<rparr>)"
      by (subst dr) (auto simp: digitalWrite_def fun_eq_iff)
    finally show ?thesis .
  next
    case False
    then have "drop (nat i) (LED_PINS cfg) = []"
      by (simp add: LED_COUNT_def)
    with False show ?thesis
      by (subst for_LED_PINS.simps) simp
  qed
qed

lemma for_LED_PINS_pinMode:
  "0 \<le> i \<Longrightarrow>
   for_LED_PINS cfg (\<lambda>p. pinMode p m) i s =
     Inr (s\<lparr>modes := (\<lambda>p. if p \<in> set (drop (nat i) (LED_PINS cfg)) then m else modes s p)\<rparr>)"
proof (induction cfg "\<lambda>p. pinMode p m" i s rule: for_LED_PINS.induct)
  case (1 cfg i s)
  show ?case
  proof (cases "i < LED_COUNT cfg")
    case True
    with 1(2) have at: "LED_PINS_at cfg i = Inr (LED_PINS cfg ! nat i)"
      by (simp add: LED_PINS_at_in_range)
    from True 1(2) have lt: "nat i < length (LED_PINS cfg)"
      by (simp add: LED_COUNT_def)
    have dr: "drop (nat i) (LED_PINS cfg) = LED_PINS cfg ! nat i # drop (nat (i + 1)) (LED_PINS cfg)"
      using lt 1(2) by (simp add: Cons_nth_drop_Suc nat_add_distrib)
    have "for_LED_PINS cfg (\<lambda>p. pinMode p m) i s =
          for_LED_PINS cfg (\<lambda>p. pinMode p m) (i + 1) (pinMode (LED_PINS cfg ! nat i) m s)"
      using True at by (subst for_LED_PINS.simps) simp
    also have "\<dots> =
        Inr ((pinMode (LED_PINS cfg ! nat i) m s)
          \<lparr>modes := (\<lambda>p. if p \<in> set (drop (nat (i + 1)) (LED_PINS cfg)) then m
                         else modes (pinMode (LED_PINS cfg ! nat i) m s) p)\<rparr>)"
      using 1(1) [OF True at] 1(2) by simp
    also have "\<dots> =
        Inr (s\<lparr>modes := (\<lambda>p. if p \<in> set (drop (nat i) (LED_PINS cfg)) then m else modes s p)\<rparr>)"
      by (subst dr) (auto simp: pinMode_def fun_eq_iff)
    finally show ?thesis .
  next
    case False
    then have "drop (nat i) (LED_PINS cfg) = []"
      by (simp add: LED_COUNT_def)
    with False show ?thesis
      by (subst for_LED_PINS.simps) simp
  qed
qed

lemma reset_result:
  "reset cfg newState s =
     Inr (s\<lparr>state := newState,
            pins := (\<lambda>p. if p = RELAIS_PIN cfg \<or> p \<in> set (LED_PINS cfg) then LOW else pins s p)\<rparr>)"
  by (auto simp: reset_def for_LED_PINS_digitalWrite digitalWrite_def fun_eq_iff)

lemma setup_board_result:
  "setup_board cfg s =
     Inr (s\<lparr>state := WAIT_FOR_LIFT,
            modes := (\<lambda>p. if p \<in> set (LED_PINS cfg) \<or> p = RELAIS_PIN cfg then OUTPUT
                          else if p = TILT_PIN cfg then INPUT_PULLUP else modes s p)\<rparr>)"
  by (auto simp: setup_board_def for_LED_PINS_pinMode pinMode_def fun_eq_iff)

section \<open>reset\<close>

text \<open>
  Claim C4. From every state and every configuration of the outputs, \<open>reset target\<close>
  returns (it never leaves the LED array), and in the state it returns the relay pin is
  low, every LED pin is low and \<open>state\<close> is \<open>target\<close>; no other pin and no other
  variable has changed. With \<open>target = WAIT_FOR_LIFT\<close> this is the reset that \<open>loop\<close>
  calls when the stick is no longer tilted.
\<close>

theorem reset_switches_everything_off:
  "reset cfg target s =
     Inr (s\<lparr>state := target,
            pins := (\<lambda>p. if p = RELAIS_PIN cfg \<or> p \<in> set (LED_PINS cfg) then LOW
                         else pins s p)\<rparr>)"
proof -
  let ?s1 = "digitalWrite (RELAIS_PIN cfg) LOW s"
  have relais: "pins ?s1 = (pins s)(RELAIS_PIN cfg := LOW)"
    by (simp add: digitalWrite_def)
  have leds: "for_LED_PINS cfg (\<lambda>p. digitalWrite p LOW) 0 ?s1 =
      Inr (?s1\<lparr>pins := (\<lambda>p. if p \<in> set (LED_PINS cfg) then LOW else pins ?s1 p)\<rparr>)"
    using for_LED_PINS_digitalWrite [of 0 cfg LOW ?s1] by simp
  have "reset cfg target s =
      Inr (?s1\<lparr>pins := (\<lambda>p. if p \<in> set (LED_PINS cfg) then LOW else pins ?s1 p),
                state := target\<rparr>)"
    unfolding reset_def leds by simp
  also have "?s1\<lparr>pins := (\<lambda>p. if p \<in> set (LED_PINS cfg) then LOW else pins ?s1 p),
                state := target\<rparr> =
      s\<lparr>state := target,
        pins := (\<lambda>p. if p = RELAIS_PIN cfg \<or> p \<in> set (LED_PINS cfg) then LOW
                     else pins s p)\<rparr>"
    unfolding relais by (auto simp: digitalWrite_def fun_eq_iff)
  finally show ?thesis .
qed

text \<open>
  Claim C8. Calling \<open>reset WAIT_FOR_LIFT\<close> on the result of \<open>reset WAIT_FOR_LIFT\<close>
  gives that result again: the state is still \<open>WAIT_FOR_LIFT\<close>, the relay and all LEDs
  are still off.
\<close>

theorem reset_twice:
  "(case reset cfg WAIT_FOR_LIFT s of
      Inl e \<Rightarrow> Inl e
    | Inr s1 \<Rightarrow> reset cfg WAIT_FOR_LIFT s1) = reset cfg WAIT_FOR_LIFT s \<and>
   reset cfg WAIT_FOR_LIFT s =
     Inr (s\<lparr>state := WAIT_FOR_LIFT,
            pins := (\<lambda>p. if p = RELAIS_PIN cfg \<or> p \<in> set (LED_PINS cfg) then LOW
                         else pins s p)\<rparr>)"
proof -
  let ?off = "s\<lparr>state := WAIT_FOR_LIFT,
            pins := (\<lambda>p. if p = RELAIS_PIN cfg \<or> p \<in> set (LED_PINS cfg) then LOW
                         else pins s p)\<rparr>"
  have once: "reset cfg WAIT_FOR_LIFT s = Inr ?off"
    by (rule reset_result)
  have "reset cfg WAIT_FOR_LIFT ?off =
      Inr (?off\<lparr>state := WAIT_FOR_LIFT,
            pins := (\<lambda>p. if p = RELAIS_PIN cfg \<or> p \<in> set (LED_PINS cfg) then LOW
                         else pins ?off p)\<rparr>)"
    by (rule reset_result)
  also have "\<dots> = Inr ?off"
    by (simp add: fun_eq_iff)
  finally have again: "reset cfg WAIT_FOR_LIFT ?off = Inr ?off" .
  show ?thesis
    unfolding once using again by simp
qed

section \<open>setup\<close>

lemma sketch_fields:
  "TILT_PIN (sketch fl) = 12" "RELAIS_PIN (sketch fl) = 3" "LED_PINS (sketch fl) = [4, 5, 6]"
  "BLINK_SEQUENCE (sketch fl) = 1500" "AFTER_LAST_LED (sketch fl) = 500"
  "RELAIS_TRIGGER_TIME (sketch fl) = 20" "PAUSE_AFTER_SHOT (sketch fl) = 5000"
  "LOW_PASS (sketch fl) = fl 0.5" "THRESHOLD_HIGH (sketch fl) = fl 0.7"
  "THRESHOLD_LOW (sketch fl) = fl 0.3" "LED_COUNT (sketch fl) = 3"
  by (simp_all add: sketch_def LED_COUNT_def)

lemma misconfigured_fields:
  "TILT_PIN misconfigured = 12" "RELAIS_PIN misconfigured = 3"
  "LED_PINS misconfigured = [4, 5, 6]" "LOW_PASS misconfigured = 1 / 2"
  "THRESHOLD_HIGH misconfigured = 3 / 10" "THRESHOLD_LOW misconfigured = 7 / 10"
  by (simp_all add: misconfigured_def sketch_def)

text \<open>\<^verbatim>\<open>isTilted\<close> in exact arithmetic, as one assignment to each of its two variables.\<close>

lemma isTilted_exact:
  "isTilted (\<lambda>x. x) cfg pin s =
     (let l = tiltLevel s + ((if pin then 1 else 0) - tiltLevel s) * LOW_PASS cfg;
          t = (if (\<not> tilted s \<and> THRESHOLD_HIGH cfg \<le> l) \<or> (tilted s \<and> l \<le> THRESHOLD_LOW cfg)
               then \<not> tilted s else tilted s)
      in (t, s\<lparr>tilted := t, tiltLevel := l\<rparr>))"
  by (simp add: isTilted_def Let_def)

text \<open>
  Claim C5, as stated, fails. \<^verbatim>\<open>setup\<close> looks at no constant but the pin numbers: with
  the thresholds exchanged (high 0.3, low 0.7) it configures the pins and returns as for
  any other configuration, and the board then runs. The exchanged thresholds show only at
  run time: on the readings HIGH, LOW, HIGH, LOW the debounced signal changes in every
  tick.
\<close>

theorem misconfigured_is_accepted:
  "THRESHOLD_HIGH misconfigured \<le> THRESHOLD_LOW misconfigured \<and>
   setup_board misconfigured power_on =
     Inr (power_on\<lparr>modes := (\<lambda>p. if p \<in> {4, 5, 6} \<or> p = 3 then OUTPUT
                                   else if p = 12 then INPUT_PULLUP else INPUT)\<rparr>) \<and>
   map tilted (isTilted_states (\<lambda>x. x) misconfigured [HIGH, LOW, HIGH, LOW] power_on) =
     [False, True, False, True, False]"
proof -
  have a: "THRESHOLD_HIGH misconfigured \<le> THRESHOLD_LOW misconfigured"
    by (simp add: misconfigured_fields)
  have b: "setup_board misconfigured power_on =
     Inr (power_on\<lparr>modes := (\<lambda>p. if p \<in> {4, 5, 6} \<or> p = 3 then OUTPUT
                                   else if p = 12 then INPUT_PULLUP else INPUT)\<rparr>)"
    by (auto simp: setup_board_result misconfigured_fields power_on_def fun_eq_iff)
  have c: "map tilted (isTilted_states (\<lambda>x. x) misconfigured [HIGH, LOW, HIGH, LOW] power_on) =
     [False, True, False, True, False]"
    by (simp add: isTilted_exact misconfigured_fields power_on_def Let_def)
  from a b c show ?thesis by simp
qed

text \<open>
  Claim C5, amended. \<^verbatim>\<open>setup\<close> rejects no configuration: for every configuration and
  from every state it returns, with the tilt pin an input with pull-up, the relay pin and
  the LED pins outputs, and \<open>state = WAIT_FOR_LIFT\<close>. The constraints on the constants
  are comments for whoever adjusts them.
\<close>

theorem setup_board_accepts_every_config:
  "setup_board cfg s =
     Inr (s\<lparr>state := WAIT_FOR_LIFT,
            modes := (\<lambda>p. if p \<in> set (LED_PINS cfg) \<or> p = RELAIS_PIN cfg then OUTPUT
                          else if p = TILT_PIN cfg then INPUT_PULLUP else modes s p)\<rparr>)"
proof -
  let ?s2 = "pinMode (RELAIS_PIN cfg) OUTPUT (pinMode (TILT_PIN cfg) INPUT_PULLUP s)"
  have leds: "for_LED_PINS cfg (\<lambda>p. pinMode p OUTPUT) 0 ?s2 =
      Inr (?s2\<lparr>modes := (\<lambda>p. if p \<in> set (LED_PINS cfg) then OUTPUT else modes ?s2 p)\<rparr>)"
    using for_LED_PINS_pinMode [of 0 cfg OUTPUT ?s2] by simp
  show ?thesis
    unfolding setup_board_def leds by (auto simp: pinMode_def fun_eq_iff)
qed

section \<open>shotCycle\<close>

text \<open>
  Claim C6. In each of the four states that wait for the clock, when the time since
  \<open>timer\<close> is less than the state's duration, \<^verbatim>\<open>shotCycle\<close> returns the state it was
  given: \<open>state\<close>, \<open>ledIndex\<close>, \<open>timer\<close> and every output are unchanged.
\<close>

theorem shotCycle_waits:
  assumes "(state s = BLINK_LEDS \<and> now - timer s < ucast (BLINK_SEQUENCE cfg)) \<or>
           (state s = TRIGGER_SHOT \<and> now - timer s < ucast (AFTER_LAST_LED cfg)) \<or>
           (state s = SHOT_DONE \<and> now - timer s < ucast (RELAIS_TRIGGER_TIME cfg)) \<or>
           (state s = PAUSE \<and> now - timer s < ucast (PAUSE_AFTER_SHOT cfg))"
  shows "shotCycle cfg now s = Inr s"
  using assms by (auto simp: shotCycle_def not_le [symmetric])

theorem shotCycle_waits_witness:
  "shotCycle (sketch (\<lambda>x. x)) 1499 (power_on\<lparr>state := BLINK_LEDS, ledIndex := 1\<rparr>) =
     Inr (power_on\<lparr>state := BLINK_LEDS, ledIndex := 1\<rparr>) \<and>
   shotCycle (sketch (\<lambda>x. x)) 8519 (power_on\<lparr>state := PAUSE, timer := 3520\<rparr>) =
     Inr (power_on\<lparr>state := PAUSE, timer := 3520\<rparr>)"
  using shotCycle_waits [of "power_on\<lparr>state := BLINK_LEDS, ledIndex := 1\<rparr>" 1499 "sketch (\<lambda>x. x)"]
    shotCycle_waits [of "power_on\<lparr>state := PAUSE, timer := 3520\<rparr>" 8519 "sketch (\<lambda>x. x)"]
  by (simp add: sketch_fields power_on_def)

text \<open>The six steps of a cycle of the sketch as written, from any state set to
  \<open>WAIT_FOR_LIFT\<close>. Pins 4, 5 and 6 are the LEDs 0, 1 and 2; pin 3 is the relay.\<close>

lemma sketch_steps:
  "shotCycle (sketch fl) 0 (s\<lparr>state := WAIT_FOR_LIFT\<rparr>) =
     Inr (s\<lparr>state := BLINK_LEDS, ledIndex := 1, timer := 0, pins := (pins s)(4 := HIGH)\<rparr>)"
  "shotCycle (sketch fl) 1500
       (s\<lparr>state := BLINK_LEDS, ledIndex := 1, timer := 0, pins := (pins s)(4 := HIGH)\<rparr>) =
     Inr (s\<lparr>state := BLINK_LEDS, ledIndex := 2, timer := 1500,
            pins := (pins s)(4 := HIGH, 5 := HIGH)\<rparr>)"
  "shotCycle (sketch fl) 3000
       (s\<lparr>state := BLINK_LEDS, ledIndex := 2, timer := 1500,
          pins := (pins s)(4 := HIGH, 5 := HIGH)\<rparr>) =
     Inr (s\<lparr>state := TRIGGER_SHOT, ledIndex := 3, timer := 3000,
            pins := (pins s)(4 := HIGH, 5 := HIGH, 6 := HIGH)\<rparr>)"
  "shotCycle (sketch fl) 3500
       (s\<lparr>state := TRIGGER_SHOT, ledIndex := 3, timer := 3000,
          pins := (pins s)(4 := HIGH, 5 := HIGH, 6 := HIGH)\<rparr>) =
     Inr (s\<lparr>state := SHOT_DONE, ledIndex := 3, timer := 3500,
            pins := (pins s)(4 := HIGH, 5 := HIGH, 6 := HIGH, 3 := HIGH)\<rparr>)"
  "shotCycle (sketch fl) 3520
       (s\<lparr>state := SHOT_DONE, ledIndex := 3, timer := 3500,
          pins := (pins s)(4 := HIGH, 5 := HIGH, 6 := HIGH, 3 := HIGH)\<rparr>) =
     Inr (s\<lparr>state := PAUSE, ledIndex := 3, timer := 3520,
            pins := (pins s)(4 := LOW, 5 := LOW, 6 := LOW, 3 := LOW)\<rparr>)"
  "shotCycle (sketch fl) 8520
       (s\<lparr>state := PAUSE, ledIndex := 3, timer := 3520,
          pins := (pins s)(4 := LOW, 5 := LOW, 6 := LOW, 3 := LOW)\<rparr>) =
     Inr (s\<lparr>state := WAIT_FOR_LIFT, ledIndex := 3, timer := 3520,
            pins := (pins s)(4 := LOW, 5 := LOW, 6 := LOW, 3 := LOW)\<rparr>)"
  by (simp_all add: shotCycle_def sketch_fields LED_PINS_at_def digitalWrite_def
      reset_result fun_eq_iff)

text \<open>
  Claim C3. With the constants of the sketch (three LEDs, 1500, 500, 20 and 5000 ms),
  starting in \<open>WAIT_FOR_LIFT\<close> and calling \<^verbatim>\<open>shotCycle\<close> at the stated times: after the
  call at 0 LED 0 is on, the state is \<open>BLINK_LEDS\<close> and \<open>ledIndex = 1\<close>; after 1500 LED
  1 is on and \<open>ledIndex = 2\<close>; after 3000 LED 2 is on, \<open>ledIndex = 3\<close> and the state is
  \<open>TRIGGER_SHOT\<close>; after 3500 the relay is on and the state is \<open>SHOT_DONE\<close>; after
  3520 the relay and all LEDs are off and the state is \<open>PAUSE\<close>; after 8520 the state
  is \<open>WAIT_FOR_LIFT\<close>.
\<close>

theorem scenario_B_and_C:
  "shotCycles (sketch fl) [0] (s\<lparr>state := WAIT_FOR_LIFT\<rparr>) =
     Inr (s\<lparr>state := BLINK_LEDS, ledIndex := 1, timer := 0, pins := (pins s)(4 := HIGH)\<rparr>) \<and>
   shotCycles (sketch fl) [0, 1500] (s\<lparr>state := WAIT_FOR_LIFT\<rparr>) =
     Inr (s\<lparr>state := BLINK_LEDS, ledIndex := 2, timer := 1500,
            pins := (pins s)(4 := HIGH, 5 := HIGH)\<rparr>) \<and>
   shotCycles (sketch fl) [0, 1500, 3000] (s\<lparr>state := WAIT_FOR_LIFT\<rparr>) =
     Inr (s\<lparr>state := TRIGGER_SHOT, ledIndex := 3, timer := 3000,
            pins := (pins s)(4 := HIGH, 5 := HIGH, 6 := HIGH)\<rparr>) \<and>
   shotCycles (sketch fl) [0, 1500, 3000, 3500] (s\<lparr>state := WAIT_FOR_LIFT\<rparr>) =
     Inr (s\<lparr>state := SHOT_DONE, ledIndex := 3, timer := 3500,
            pins := (pins s)(4 := HIGH, 5 := HIGH, 6 := HIGH, 3 := HIGH)\<rparr>) \<and>
   shotCycles (sketch fl) [0, 1500, 3000, 3500, 3520] (s\<lparr>state := WAIT_FOR_LIFT\<rparr>) =
     Inr (s\<lparr>state := PAUSE, ledIndex := 3, timer := 3520,
            pins := (pins s)(4 := LOW, 5 := LOW, 6 := LOW, 3 := LOW)\<rparr>) \<and>
   shotCycles (sketch fl) [0, 1500, 3000, 3500, 3520, 8520] (s\<lparr>state := WAIT_FOR_LIFT\<rparr>) =
     Inr (s\<lparr>state := WAIT_FOR_LIFT, ledIndex := 3, timer := 3520,
            pins := (pins s)(4 := LOW, 5 := LOW, 6 := LOW, 3 := LOW)\<rparr>)"
proof (intro conjI)
  note steps = sketch_steps [of fl s]
  show "shotCycles (sketch fl) [0] (s\<lparr>state := WAIT_FOR_LIFT\<rparr>) =
     Inr (s\<lparr>state := BLINK_LEDS, ledIndex := 1, timer := 0, pins := (pins s)(4 := HIGH)\<rparr>)"
    by (simp add: steps(1))
  show "shotCycles (sketch fl) [0, 1500] (s\<lparr>state := WAIT_FOR_LIFT\<rparr>) =
     Inr (s\<lparr>state := BLINK_LEDS, ledIndex := 2, timer := 1500,
            pins := (pins s)(4 := HIGH, 5 := HIGH)\<rparr>)"
    by (simp add: steps(1,2))
  show "shotCycles (sketch fl) [0, 1500, 3000] (s\<lparr>state := WAIT_FOR_LIFT\<rparr>) =
     Inr (s\<lparr>state := TRIGGER_SHOT, ledIndex := 3, timer := 3000,
            pins := (pins s)(4 := HIGH, 5 := HIGH, 6 := HIGH)\<rparr>)"
    by (simp add: steps(1,2,3))
  show "shotCycles (sketch fl) [0, 1500, 3000, 3500] (s\<lparr>state := WAIT_FOR_LIFT\<rparr>) =
     Inr (s\<lparr>state := SHOT_DONE, ledIndex := 3, timer := 3500,
            pins := (pins s)(4 := HIGH, 5 := HIGH, 6 := HIGH, 3 := HIGH)\<rparr>)"
    by (simp add: steps(1,2,3,4))
  show "shotCycles (sketch fl) [0, 1500, 3000, 3500, 3520] (s\<lparr>state := WAIT_FOR_LIFT\<rparr>) =
     Inr (s\<lparr>state := PAUSE, ledIndex := 3, timer := 3520,
            pins := (pins s)(4 := LOW, 5 := LOW, 6 := LOW, 3 := LOW)\<rparr>)"
    by (simp add: steps(1,2,3,4,5))
  show "shotCycles (sketch fl) [0, 1500, 3000, 3500, 3520, 8520] (s\<lparr>state := WAIT_FOR_LIFT\<rparr>) =
     Inr (s\<lparr>state := WAIT_FOR_LIFT, ledIndex := 3, timer := 3520,
            pins := (pins s)(4 := LOW, 5 := LOW, 6 := LOW, 3 := LOW)\<rparr>)"
    by (simp add: steps)
qed

subsection \<open>A whole cycle\<close>

lemma shotCycles_append:
  "shotCycles cfg (xs @ ys) s =
     (case shotCycles cfg xs s of Inl e \<Rightarrow> Inl e | Inr s' \<Rightarrow> shotCycles cfg ys s')"
  by (induction xs arbitrary: s) (auto split: sum.splits)

lemma shotCycle_first_led:
  assumes "0 < length (LED_PINS cfg)"
  shows "shotCycle cfg now (s\<lparr>state := WAIT_FOR_LIFT\<rparr>) =
     Inr (s\<lparr>state := BLINK_LEDS, ledIndex := 1, timer := now,
            pins := (pins s)(LED_PINS cfg ! 0 := HIGH)\<rparr>)"
  using assms
  by (simp add: shotCycle_def LED_PINS_at_def LED_COUNT_def digitalWrite_def)

lemma shotCycle_next_led:
  assumes "state s = BLINK_LEDS" "ledIndex s = int k" "k < length (LED_PINS cfg)"
    and "ucast (BLINK_SEQUENCE cfg) \<le> now - timer s"
  shows "shotCycle cfg now s =
     Inr (s\<lparr>state := (if Suc k = length (LED_PINS cfg) then TRIGGER_SHOT else BLINK_LEDS),
            ledIndex := int (Suc k), timer := now,
            pins := (pins s)(LED_PINS cfg ! k := HIGH)\<rparr>)"
  using assms
  by (simp add: shotCycle_def LED_PINS_at_def LED_COUNT_def digitalWrite_def)

lemma shotCycle_trigger:
  assumes "state s = TRIGGER_SHOT" "ucast (AFTER_LAST_LED cfg) \<le> now - timer s"
  shows "shotCycle cfg now s =
     Inr (s\<lparr>state := SHOT_DONE, timer := now, pins := (pins s)(RELAIS_PIN cfg := HIGH)\<rparr>)"
  using assms by (simp add: shotCycle_def digitalWrite_def)

lemma shotCycle_shot_done:
  assumes "state s = SHOT_DONE" "ucast (RELAIS_TRIGGER_TIME cfg) \<le> now - timer s"
  shows "shotCycle cfg now s =
     Inr (s\<lparr>state := PAUSE, timer := now,
            pins := (\<lambda>p. if p = RELAIS_PIN cfg \<or> p \<in> set (LED_PINS cfg) then LOW
                         else pins s p)\<rparr>)"
  using assms by (simp add: shotCycle_def reset_result)

lemma shotCycle_pause:
  assumes "state s = PAUSE" "ucast (PAUSE_AFTER_SHOT cfg) \<le> now - timer s"
  shows "shotCycle cfg now s = Inr (s\<lparr>state := WAIT_FOR_LIFT\<rparr>)"
  using assms by (simp add: shotCycle_def)

text \<open>From LED \<open>k\<close> on, called at each reading of \<open>countdown_times\<close>, \<^verbatim>\<open>shotCycle\<close>
  lights the remaining \<open>m\<close> LEDs and leaves \<open>BLINK_LEDS\<close> with the last of them.\<close>

lemma countdown:
  assumes "state s = BLINK_LEDS" "ledIndex s = int k" "timer s = t"
    and "k + m = length (LED_PINS cfg)" "0 < m"
  shows "shotCycles cfg (countdown_times t (ucast (BLINK_SEQUENCE cfg)) m) s =
     Inr (s\<lparr>state := TRIGGER_SHOT, ledIndex := int (k + m),
            timer := t + of_nat m * ucast (BLINK_SEQUENCE cfg),
            pins := (\<lambda>p. if p \<in> set (drop k (LED_PINS cfg)) then HIGH else pins s p)\<rparr>)"
  using assms
proof (induction m arbitrary: s k t)
  case 0
  then show ?case by simp
next
  case (Suc m)
  let ?d = "ucast (BLINK_SEQUENCE cfg) :: 32 word"
  let ?s2 = "s\<lparr>state := (if Suc k = length (LED_PINS cfg) then TRIGGER_SHOT else BLINK_LEDS),
            ledIndex := int (Suc k), timer := t + ?d,
            pins := (pins s)(LED_PINS cfg ! k := HIGH)\<rparr>"
  from Suc.prems have k: "k < length (LED_PINS cfg)" by simp
  have step: "shotCycle cfg (t + ?d) s = Inr ?s2"
    using Suc.prems k by (intro shotCycle_next_led) simp_all
  have dr: "drop k (LED_PINS cfg) = LED_PINS cfg ! k # drop (Suc k) (LED_PINS cfg)"
    using k by (simp add: Cons_nth_drop_Suc)
  show ?case
  proof (cases m)
    case 0
    with Suc.prems have "Suc k = length (LED_PINS cfg)" by simp
    with 0 step dr show ?thesis
      by (auto simp: fun_eq_iff)
  next
    case (Suc m')
    with Suc.prems have ne: "Suc k \<noteq> length (LED_PINS cfg)" by simp
    have "shotCycles cfg (countdown_times (t + ?d) ?d m) ?s2 =
       Inr (?s2\<lparr>state := TRIGGER_SHOT, ledIndex := int (Suc k + m),
            timer := (t + ?d) + of_nat m * ?d,
            pins := (\<lambda>p. if p \<in> set (drop (Suc k) (LED_PINS cfg)) then HIGH else pins ?s2 p)\<rparr>)"
      using Suc.prems ne Suc by (intro Suc.IH) simp_all
    with step dr show ?thesis
      by (auto simp: fun_eq_iff algebra_simps)
  qed
qed

lemma cycle_upto_trigger:
  assumes "2 \<le> length (LED_PINS cfg)"
  shows "shotCycles cfg
           (t0 # countdown_times t0 (ucast (BLINK_SEQUENCE cfg)) (length (LED_PINS cfg) - 1))
           (s\<lparr>state := WAIT_FOR_LIFT\<rparr>) =
     Inr (s\<lparr>state := TRIGGER_SHOT, ledIndex := int (length (LED_PINS cfg)),
            timer := t0 + of_nat (length (LED_PINS cfg) - 1) * ucast (BLINK_SEQUENCE cfg),
            pins := (\<lambda>p. if p \<in> set (LED_PINS cfg) then HIGH else pins s p)\<rparr>)"
proof -
  let ?s1 = "s\<lparr>state := BLINK_LEDS, ledIndex := 1, timer := t0,
            pins := (pins s)(LED_PINS cfg ! 0 := HIGH)\<rparr>"
  from assms have first: "shotCycle cfg t0 (s\<lparr>state := WAIT_FOR_LIFT\<rparr>) = Inr ?s1"
    by (intro shotCycle_first_led) auto
  have rest:
    "shotCycles cfg
       (countdown_times t0 (ucast (BLINK_SEQUENCE cfg)) (length (LED_PINS cfg) - 1)) ?s1 =
     Inr (?s1\<lparr>state := TRIGGER_SHOT, ledIndex := int (1 + (length (LED_PINS cfg) - 1)),
            timer := t0 + of_nat (length (LED_PINS cfg) - 1) * ucast (BLINK_SEQUENCE cfg),
            pins := (\<lambda>p. if p \<in> set (drop 1 (LED_PINS cfg)) then HIGH else pins ?s1 p)\<rparr>)"
    using assms by (intro countdown) auto
  from assms have dr: "LED_PINS cfg = LED_PINS cfg ! 0 # drop 1 (LED_PINS cfg)"
    by (cases "LED_PINS cfg") auto
  have pins_eq: "(\<lambda>p. if p \<in> set (drop 1 (LED_PINS cfg)) then HIGH else pins ?s1 p) =
        (\<lambda>p. if p \<in> set (LED_PINS cfg) then HIGH else pins s p)"
    by (subst (2) dr) (auto simp: fun_eq_iff)
  from assms have n: "int (1 + (length (LED_PINS cfg) - 1)) = int (length (LED_PINS cfg))"
    by simp
  show ?thesis
    using first rest unfolding pins_eq n by simp
qed

lemma sketch_cycle_times:
  "cycle_times (sketch fl) 0 = [0, 1500, 3000, 3500, 3520, 8520]"
proof -
  have n: "length (LED_PINS (sketch fl)) - 1 = Suc (Suc 0)"
    by (simp add: sketch_fields)
  show ?thesis
    unfolding cycle_times_def n by (simp add: sketch_fields)
qed

text \<open>
  Claim C1, as stated, fails: the first LED is lit in the call that leaves
  \<open>WAIT_FOR_LIFT\<close>, so only the other LEDs wait for \<^verbatim>\<open>BLINK_SEQUENCE\<close>. With the
  constants of the sketch the cycle is in \<open>PAUSE\<close> after the call at 3520 and back in
  \<open>WAIT_FOR_LIFT\<close>, all outputs off, after the call at 8520, which is not the claimed
  3 * 1500 + 500 + 20 + 5000 = 10020.
\<close>

theorem full_cycle_time_counterexample:
  "shotCycles (sketch (\<lambda>x. x)) [0, 1500, 3000, 3500, 3520] power_on =
     Inr (power_on\<lparr>state := PAUSE, ledIndex := 3, timer := 3520\<rparr>) \<and>
   shotCycles (sketch (\<lambda>x. x)) [0, 1500, 3000, 3500, 3520, 8520] power_on =
     Inr (power_on\<lparr>state := WAIT_FOR_LIFT, ledIndex := 3, timer := 3520\<rparr>) \<and>
   (8520 :: 32 word) - 0 \<noteq>
     of_nat (length (LED_PINS (sketch (\<lambda>x. x)))) * ucast (BLINK_SEQUENCE (sketch (\<lambda>x. x)))
       + ucast (AFTER_LAST_LED (sketch (\<lambda>x. x)))
       + ucast (RELAIS_TRIGGER_TIME (sketch (\<lambda>x. x)))
       + ucast (PAUSE_AFTER_SHOT (sketch (\<lambda>x. x)))"
proof -
  have a: "shotCycles (sketch (\<lambda>x. x)) [0, 1500, 3000, 3500, 3520] power_on =
     Inr (power_on\<lparr>state := PAUSE, ledIndex := 3, timer := 3520\<rparr>)"
    by (simp add: shotCycle_def sketch_fields power_on_def LED_PINS_at_def
        digitalWrite_def reset_result fun_eq_iff)
  have b: "shotCycle (sketch (\<lambda>x. x)) 8520
             (power_on\<lparr>state := PAUSE, ledIndex := 3, timer := 3520\<rparr>) =
     Inr (power_on\<lparr>state := WAIT_FOR_LIFT, ledIndex := 3, timer := 3520\<rparr>)"
    by (simp add: shotCycle_def sketch_fields)
  have ab: "shotCycles (sketch (\<lambda>x. x)) ([0, 1500, 3000, 3500, 3520] @ [8520]) power_on =
     Inr (power_on\<lparr>state := WAIT_FOR_LIFT, ledIndex := 3, timer := 3520\<rparr>)"
    unfolding shotCycles_append a using b by simp
  have c: "(8520 :: 32 word) - 0 \<noteq>
     of_nat (length (LED_PINS (sketch (\<lambda>x. x)))) * ucast (BLINK_SEQUENCE (sketch (\<lambda>x. x)))
       + ucast (AFTER_LAST_LED (sketch (\<lambda>x. x)))
       + ucast (RELAIS_TRIGGER_TIME (sketch (\<lambda>x. x)))
       + ucast (PAUSE_AFTER_SHOT (sketch (\<lambda>x. x)))"
    by (simp add: sketch_fields)
  from a ab c show ?thesis by simp
qed

text \<open>Called at the readings of \<open>cycle_times\<close>, \<^verbatim>\<open>shotCycle\<close> goes once round the cycle;
  before the last call it is in \<open>PAUSE\<close>.\<close>

lemma cycle_at_boundaries:
  assumes "2 \<le> length (LED_PINS cfg)"
  shows "shotCycles cfg (cycle_times cfg t0) (s\<lparr>state := WAIT_FOR_LIFT\<rparr>) =
           Inr (s\<lparr>state := WAIT_FOR_LIFT, ledIndex := int (length (LED_PINS cfg)),
                  timer := t0 + of_nat (length (LED_PINS cfg) - 1) * ucast (BLINK_SEQUENCE cfg)
                             + ucast (AFTER_LAST_LED cfg) + ucast (RELAIS_TRIGGER_TIME cfg),
                  pins := (\<lambda>p. if p = RELAIS_PIN cfg \<or> p \<in> set (LED_PINS cfg) then LOW
                               else pins s p)\<rparr>) \<and>
         shotCycles cfg (butlast (cycle_times cfg t0)) (s\<lparr>state := WAIT_FOR_LIFT\<rparr>) =
           Inr (s\<lparr>state := PAUSE, ledIndex := int (length (LED_PINS cfg)),
                  timer := t0 + of_nat (length (LED_PINS cfg) - 1) * ucast (BLINK_SEQUENCE cfg)
                             + ucast (AFTER_LAST_LED cfg) + ucast (RELAIS_TRIGGER_TIME cfg),
                  pins := (\<lambda>p. if p = RELAIS_PIN cfg \<or> p \<in> set (LED_PINS cfg) then LOW
                               else pins s p)\<rparr>) \<and>
         last (cycle_times cfg t0) - hd (cycle_times cfg t0) =
           of_nat (length (LED_PINS cfg) - 1) * ucast (BLINK_SEQUENCE cfg)
             + ucast (AFTER_LAST_LED cfg) + ucast (RELAIS_TRIGGER_TIME cfg)
             + ucast (PAUSE_AFTER_SHOT cfg)"
proof -
  let ?n = "length (LED_PINS cfg)"
  let ?t1 = "t0 + of_nat (?n - 1) * ucast (BLINK_SEQUENCE cfg) :: 32 word"
  let ?t2 = "?t1 + ucast (AFTER_LAST_LED cfg)"
  let ?t3 = "?t2 + ucast (RELAIS_TRIGGER_TIME cfg)"
  let ?t4 = "?t3 + ucast (PAUSE_AFTER_SHOT cfg)"
  let ?front = "t0 # countdown_times t0 (ucast (BLINK_SEQUENCE cfg)) (?n - 1)"
  let ?a = "s\<lparr>state := TRIGGER_SHOT, ledIndex := int ?n, timer := ?t1,
            pins := (\<lambda>p. if p \<in> set (LED_PINS cfg) then HIGH else pins s p)\<rparr>"
  let ?b = "?a\<lparr>state := SHOT_DONE, timer := ?t2, pins := (pins ?a)(RELAIS_PIN cfg := HIGH)\<rparr>"
  let ?c = "?b\<lparr>state := PAUSE, timer := ?t3,
            pins := (\<lambda>p. if p = RELAIS_PIN cfg \<or> p \<in> set (LED_PINS cfg) then LOW
                         else pins ?b p)\<rparr>"
  have times: "cycle_times cfg t0 = ?front @ [?t2, ?t3, ?t4]"
    by (simp add: cycle_times_def Let_def)
  have short: "butlast (cycle_times cfg t0) = ?front @ [?t2, ?t3]"
    unfolding times by (simp add: butlast_append)
  have A: "shotCycles cfg ?front (s\<lparr>state := WAIT_FOR_LIFT\<rparr>) = Inr ?a"
    using assms by (rule cycle_upto_trigger)
  have B: "shotCycle cfg ?t2 ?a = Inr ?b"
    by (intro shotCycle_trigger) simp_all
  have C: "shotCycle cfg ?t3 ?b = Inr ?c"
    by (intro shotCycle_shot_done) simp_all
  have D: "shotCycle cfg ?t4 ?c = Inr (?c\<lparr>state := WAIT_FOR_LIFT\<rparr>)"
    by (intro shotCycle_pause) simp_all
  have c_eq: "?c = s\<lparr>state := PAUSE, ledIndex := int ?n, timer := ?t3,
                  pins := (\<lambda>p. if p = RELAIS_PIN cfg \<or> p \<in> set (LED_PINS cfg) then LOW
                               else pins s p)\<rparr>"
    by (auto simp: fun_eq_iff)
  have 1: "shotCycles cfg (cycle_times cfg t0) (s\<lparr>state := WAIT_FOR_LIFT\<rparr>) =
         Inr (?c\<lparr>state := WAIT_FOR_LIFT\<rparr>)"
    unfolding times shotCycles_append A using B C D by simp
  have 2: "shotCycles cfg (butlast (cycle_times cfg t0)) (s\<lparr>state := WAIT_FOR_LIFT\<rparr>) = Inr ?c"
    unfolding short shotCycles_append A using B C by simp
  have 3: "last (cycle_times cfg t0) - hd (cycle_times cfg t0) =
           of_nat (?n - 1) * ucast (BLINK_SEQUENCE cfg)
             + ucast (AFTER_LAST_LED cfg) + ucast (RELAIS_TRIGGER_TIME cfg)
             + ucast (PAUSE_AFTER_SHOT cfg)"
    unfolding times by simp
  from 1 2 3 show ?thesis
    unfolding c_eq by simp
qed

subsection \<open>No part of a cycle is shorter\<close>

lemma shotCycle_early:
  assumes "state s \<noteq> WAIT_FOR_LIFT" "now - timer s < duration cfg (state s)"
  shows "shotCycle cfg now s = Inr s"
  using assms by (cases "state s") (auto simp: shotCycle_def duration_def not_le [symmetric])

lemma on_boundary:
  fixes now t d :: "32 word"
  assumes "now - t \<le> d" "\<not> now - t < d"
  shows "now = t + d" "d \<le> now - t"
  using assms by auto

lemma cycle_inv_not_idle: "cycle_inv cfg t0 s0 s \<Longrightarrow> state s \<noteq> WAIT_FOR_LIFT"
  by (auto simp: cycle_inv_def)

lemma cycle_step:
  assumes n: "2 \<le> length (LED_PINS cfg)"
    and inv: "cycle_inv cfg t0 s0 s"
    and punct: "now - timer s \<le> duration cfg (state s)"
  shows "\<exists>s'. shotCycle cfg now s = Inr s' \<and>
           (cycle_inv cfg t0 s0 s' \<or>
            s' = s0\<lparr>state := WAIT_FOR_LIFT, ledIndex := int (length (LED_PINS cfg)),
                   timer := t0 + of_nat (length (LED_PINS cfg) - 1) * ucast (BLINK_SEQUENCE cfg)
                              + ucast (AFTER_LAST_LED cfg) + ucast (RELAIS_TRIGGER_TIME cfg),
                   pins := (\<lambda>p. if p = RELAIS_PIN cfg \<or> p \<in> set (LED_PINS cfg) then LOW
                                else pins s0 p)\<rparr> \<and>
            now - t0 =
              of_nat (length (LED_PINS cfg) - 1) * ucast (BLINK_SEQUENCE cfg)
                + ucast (AFTER_LAST_LED cfg) + ucast (RELAIS_TRIGGER_TIME cfg)
                + ucast (PAUSE_AFTER_SHOT cfg))"
proof (cases "now - timer s < duration cfg (state s)")
  case True
  with inv have "shotCycle cfg now s = Inr s"
    by (intro shotCycle_early cycle_inv_not_idle)
  with inv show ?thesis by simp
next
  case False
  note b = on_boundary [OF punct False]
  let ?n = "length (LED_PINS cfg)"
  let ?I = "ucast (BLINK_SEQUENCE cfg) :: 32 word"
  let ?t1 = "t0 + of_nat (?n - 1) * ?I"
  let ?t2 = "?t1 + ucast (AFTER_LAST_LED cfg)"
  let ?t3 = "?t2 + ucast (RELAIS_TRIGGER_TIME cfg)"
  let ?A = "s0\<lparr>state := TRIGGER_SHOT, ledIndex := int ?n, timer := ?t1,
            pins := (\<lambda>p. if p \<in> set (LED_PINS cfg) then HIGH else pins s0 p)\<rparr>"
  let ?B = "s0\<lparr>state := SHOT_DONE, ledIndex := int ?n, timer := ?t2,
            pins := (\<lambda>p. if p = RELAIS_PIN cfg \<or> p \<in> set (LED_PINS cfg) then HIGH
                         else pins s0 p)\<rparr>"
  let ?C = "s0\<lparr>state := PAUSE, ledIndex := int ?n, timer := ?t3,
            pins := (\<lambda>p. if p = RELAIS_PIN cfg \<or> p \<in> set (LED_PINS cfg) then LOW
                         else pins s0 p)\<rparr>"
  from inv consider
    j where "1 \<le> j" "j < ?n"
      "s = s0\<lparr>state := BLINK_LEDS, ledIndex := int j, timer := t0 + of_nat (j - 1) * ?I,
               pins := (\<lambda>p. if p \<in> set (take j (LED_PINS cfg)) then HIGH else pins s0 p)\<rparr>"
    | "s = ?A" | "s = ?B" | "s = ?C"
    unfolding cycle_inv_def by blast
  then show ?thesis
  proof cases
    case (1 j)
    have st: "state s = BLINK_LEDS" "ledIndex s = int j"
      "timer s = t0 + of_nat (j - 1) * ?I"
      by (simp_all add: 1(3))
    from b st have now: "now = t0 + of_nat (j - 1) * ?I + ?I" and
      pass: "ucast (BLINK_SEQUENCE cfg) \<le> now - timer s"
      by (simp_all add: duration_def)
    from 1(1) have now': "now = t0 + of_nat (Suc j - 1) * ?I"
      unfolding now by (cases j) (simp_all add: algebra_simps)
    have tk: "take (Suc j) (LED_PINS cfg) = take j (LED_PINS cfg) @ [LED_PINS cfg ! j]"
      using 1(2) by (rule take_Suc_conv_app_nth)
    have step: "shotCycle cfg now s =
        Inr (s\<lparr>state := (if Suc j = ?n then TRIGGER_SHOT else BLINK_LEDS),
               ledIndex := int (Suc j), timer := now,
               pins := (pins s)(LED_PINS cfg ! j := HIGH)\<rparr>)"
      using st(1,2) 1(2) pass by (rule shotCycle_next_led)
    have res: "s\<lparr>state := (if Suc j = ?n then TRIGGER_SHOT else BLINK_LEDS),
               ledIndex := int (Suc j), timer := now,
               pins := (pins s)(LED_PINS cfg ! j := HIGH)\<rparr> =
          s0\<lparr>state := (if Suc j = ?n then TRIGGER_SHOT else BLINK_LEDS),
               ledIndex := int (Suc j), timer := t0 + of_nat (Suc j - 1) * ?I,
               pins := (\<lambda>p. if p \<in> set (take (Suc j) (LED_PINS cfg)) then HIGH
                            else pins s0 p)\<rparr>"
      unfolding 1(3) tk now' by (auto simp: fun_eq_iff)
    show ?thesis
    proof (cases "Suc j = ?n")
      case True
      then have "take (Suc j) (LED_PINS cfg) = LED_PINS cfg" by simp
      with True step res have "shotCycle cfg now s = Inr ?A" by simp
      then show ?thesis by (simp add: cycle_inv_def)
    next
      case False
      with 1(2) have lt: "Suc j < ?n" by simp
      let ?s' = "s0\<lparr>state := BLINK_LEDS, ledIndex := int (Suc j),
               timer := t0 + of_nat (Suc j - 1) * ?I,
               pins := (\<lambda>p. if p \<in> set (take (Suc j) (LED_PINS cfg)) then HIGH
                            else pins s0 p)\<rparr>"
      from False step res have sc: "shotCycle cfg now s = Inr ?s'" by simp
      have "cycle_inv cfg t0 s0 ?s'"
        unfolding cycle_inv_def using lt by (intro disjI1 exI [of _ "Suc j"]) simp
      with sc show ?thesis by blast
    qed
  next
    case 2
    from b 2 have now: "now = ?t2" and pass: "ucast (AFTER_LAST_LED cfg) \<le> now - timer s"
      by (simp_all add: duration_def)
    have "shotCycle cfg now s =
        Inr (s\<lparr>state := SHOT_DONE, timer := now, pins := (pins s)(RELAIS_PIN cfg := HIGH)\<rparr>)"
      using pass by (intro shotCycle_trigger) (simp add: 2)
    also have "s\<lparr>state := SHOT_DONE, timer := now, pins := (pins s)(RELAIS_PIN cfg := HIGH)\<rparr> = ?B"
      unfolding 2 now by (auto simp: fun_eq_iff)
    finally show ?thesis by (simp add: cycle_inv_def)
  next
    case 3
    from b 3 have now: "now = ?t3" and pass: "ucast (RELAIS_TRIGGER_TIME cfg) \<le> now - timer s"
      by (simp_all add: duration_def)
    have "shotCycle cfg now s =
        Inr (s\<lparr>state := PAUSE, timer := now,
            pins := (\<lambda>p. if p = RELAIS_PIN cfg \<or> p \<in> set (LED_PINS cfg) then LOW
                         else pins s p)\<rparr>)"
      using pass by (intro shotCycle_shot_done) (simp add: 3)
    also have "s\<lparr>state := PAUSE, timer := now,
            pins := (\<lambda>p. if p = RELAIS_PIN cfg \<or> p \<in> set (LED_PINS cfg) then LOW
                         else pins s p)\<rparr> = ?C"
      unfolding 3 now by (auto simp: fun_eq_iff)
    finally show ?thesis by (simp add: cycle_inv_def)
  next
    case 4
    from b 4 have now: "now = ?t3 + ucast (PAUSE_AFTER_SHOT cfg)"
      and pass: "ucast (PAUSE_AFTER_SHOT cfg) \<le> now - timer s"
      by (simp_all add: duration_def)
    have "shotCycle cfg now s = Inr (s\<lparr>state := WAIT_FOR_LIFT\<rparr>)"
      using pass by (intro shotCycle_pause) (simp add: 4)
    moreover have "now - t0 = of_nat (?n - 1) * ?I
                + ucast (AFTER_LAST_LED cfg) + ucast (RELAIS_TRIGGER_TIME cfg)
                + ucast (PAUSE_AFTER_SHOT cfg)"
      unfolding now by simp
    ultimately show ?thesis
      unfolding 4 by simp
  qed
qed

lemma cycle_run:
  assumes n: "2 \<le> length (LED_PINS cfg)"
    and inv: "cycle_inv cfg t0 s0 s"
    and wc: "within_cycle cfg ts s"
  shows "\<exists>s'. shotCycles cfg ts s = Inr s' \<and>
           (cycle_inv cfg t0 s0 s' \<or>
            ts \<noteq> [] \<and>
            s' = s0\<lparr>state := WAIT_FOR_LIFT, ledIndex := int (length (LED_PINS cfg)),
                   timer := t0 + of_nat (length (LED_PINS cfg) - 1) * ucast (BLINK_SEQUENCE cfg)
                              + ucast (AFTER_LAST_LED cfg) + ucast (RELAIS_TRIGGER_TIME cfg),
                   pins := (\<lambda>p. if p = RELAIS_PIN cfg \<or> p \<in> set (LED_PINS cfg) then LOW
                                else pins s0 p)\<rparr> \<and>
            last ts - t0 =
              of_nat (length (LED_PINS cfg) - 1) * ucast (BLINK_SEQUENCE cfg)
                + ucast (AFTER_LAST_LED cfg) + ucast (RELAIS_TRIGGER_TIME cfg)
                + ucast (PAUSE_AFTER_SHOT cfg))"
  using inv wc
proof (induction ts arbitrary: s)
  case Nil
  then show ?case by simp
next
  case (Cons now rest)
  let ?F = "s0\<lparr>state := WAIT_FOR_LIFT, ledIndex := int (length (LED_PINS cfg)),
                   timer := t0 + of_nat (length (LED_PINS cfg) - 1) * ucast (BLINK_SEQUENCE cfg)
                              + ucast (AFTER_LAST_LED cfg) + ucast (RELAIS_TRIGGER_TIME cfg),
                   pins := (\<lambda>p. if p = RELAIS_PIN cfg \<or> p \<in> set (LED_PINS cfg) then LOW
                                else pins s0 p)\<rparr>"
  let ?T = "of_nat (length (LED_PINS cfg) - 1) * ucast (BLINK_SEQUENCE cfg)
                + ucast (AFTER_LAST_LED cfg) + ucast (RELAIS_TRIGGER_TIME cfg)
                + ucast (PAUSE_AFTER_SHOT cfg) :: 32 word"
  from Cons.prems(2) have punct: "now - timer s \<le> duration cfg (state s)"
    by simp
  from cycle_step [OF n Cons.prems(1) punct]
  obtain s1 where s1: "shotCycle cfg now s = Inr s1"
    and alt: "cycle_inv cfg t0 s0 s1 \<or> s1 = ?F \<and> now - t0 = ?T"
    by blast
  from Cons.prems(2) s1 have rest: "within_cycle cfg rest s1"
    by simp
  from alt show ?case
  proof
    assume i1: "cycle_inv cfg t0 s0 s1"
    from Cons.IH [OF i1 rest]
    obtain s' where r: "shotCycles cfg rest s1 = Inr s'"
      and a: "cycle_inv cfg t0 s0 s' \<or> rest \<noteq> [] \<and> s' = ?F \<and> last rest - t0 = ?T"
      by blast
    from r s1 have "shotCycles cfg (now # rest) s = Inr s'" by simp
    moreover from a have "cycle_inv cfg t0 s0 s' \<or>
        now # rest \<noteq> [] \<and> s' = ?F \<and> last (now # rest) - t0 = ?T"
      by auto
    ultimately show ?thesis by blast
  next
    assume f: "s1 = ?F \<and> now - t0 = ?T"
    then have "state s1 = WAIT_FOR_LIFT" by simp
    with rest have "rest = []" by (cases rest) simp_all
    with s1 f show ?thesis by simp
  qed
qed

lemma within_cycle_append:
  "within_cycle cfg (xs @ ys) s =
     (within_cycle cfg xs s \<and>
      (case shotCycles cfg xs s of Inl e \<Rightarrow> True | Inr s' \<Rightarrow> within_cycle cfg ys s'))"
  by (induction xs arbitrary: s) (auto split: sum.splits)

lemma within_cycle_countdown:
  assumes "state s = BLINK_LEDS" "ledIndex s = int k" "timer s = t"
    and "k + m = length (LED_PINS cfg)"
  shows "within_cycle cfg (countdown_times t (ucast (BLINK_SEQUENCE cfg)) m) s"
  using assms
proof (induction m arbitrary: s k t)
  case 0
  then show ?case by simp
next
  case (Suc m)
  let ?d = "ucast (BLINK_SEQUENCE cfg) :: 32 word"
  let ?s2 = "s\<lparr>state := (if Suc k = length (LED_PINS cfg) then TRIGGER_SHOT else BLINK_LEDS),
            ledIndex := int (Suc k), timer := t + ?d,
            pins := (pins s)(LED_PINS cfg ! k := HIGH)\<rparr>"
  from Suc.prems have k: "k < length (LED_PINS cfg)" by simp
  have step: "shotCycle cfg (t + ?d) s = Inr ?s2"
    using Suc.prems k by (intro shotCycle_next_led) simp_all
  have rest: "within_cycle cfg (countdown_times (t + ?d) ?d m) ?s2"
  proof (cases m)
    case 0
    then show ?thesis by simp
  next
    case (Suc m')
    with Suc.prems have "Suc k \<noteq> length (LED_PINS cfg)" by simp
    with Suc.prems show ?thesis by (intro Suc.IH [of _ "Suc k"]) simp_all
  qed
  from Suc.prems step rest show ?case
    by (simp add: duration_def)
qed

lemma within_cycle_after_countdown:
  assumes "state a = TRIGGER_SHOT"
  shows "within_cycle cfg
           [timer a + ucast (AFTER_LAST_LED cfg),
            timer a + ucast (AFTER_LAST_LED cfg) + ucast (RELAIS_TRIGGER_TIME cfg),
            timer a + ucast (AFTER_LAST_LED cfg) + ucast (RELAIS_TRIGGER_TIME cfg)
              + ucast (PAUSE_AFTER_SHOT cfg)] a"
  using assms
  by (simp add: shotCycle_trigger shotCycle_shot_done shotCycle_pause duration_def)


text \<open>
  Claim C1, amended. With at least two LEDs, from \<open>WAIT_FOR_LIFT\<close>, with the tilt
  signal held: the call at \<open>t0\<close> lights the first LED and starts the countdown. For every
  list of further readings that lies within the cycle (no tick later than a boundary,
  any number of ticks before it), \<^verbatim>\<open>shotCycle\<close> returns, and when it is back in
  \<open>WAIT_FOR_LIFT\<close> the relay and all LEDs are off and the time from the first call to
  the last, on the 32-bit clock, is (number of LEDs - 1) * \<^verbatim>\<open>BLINK_SEQUENCE\<close> +
  \<^verbatim>\<open>AFTER_LAST_LED\<close> + \<^verbatim>\<open>RELAIS_TRIGGER_TIME\<close> + \<^verbatim>\<open>PAUSE_AFTER_SHOT\<close>: not less, because
  a tick before a boundary changes nothing. The readings of \<open>cycle_times cfg t0\<close>, one
  at each boundary, are such a list and do bring the cycle back; before the last of them
  it is still in \<open>PAUSE\<close>.
\<close>

theorem full_cycle:
  assumes "2 \<le> length (LED_PINS cfg)"
  shows "shotCycle cfg t0 (s\<lparr>state := WAIT_FOR_LIFT\<rparr>) =
           Inr (s\<lparr>state := BLINK_LEDS, ledIndex := 1, timer := t0,
                  pins := (pins s)(LED_PINS cfg ! 0 := HIGH)\<rparr>) \<and>
         within_cycle cfg (tl (cycle_times cfg t0))
           (s\<lparr>state := BLINK_LEDS, ledIndex := 1, timer := t0,
              pins := (pins s)(LED_PINS cfg ! 0 := HIGH)\<rparr>) \<and>
         shotCycles cfg (cycle_times cfg t0) (s\<lparr>state := WAIT_FOR_LIFT\<rparr>) =
           Inr (s\<lparr>state := WAIT_FOR_LIFT, ledIndex := int (length (LED_PINS cfg)),
                  timer := t0 + of_nat (length (LED_PINS cfg) - 1) * ucast (BLINK_SEQUENCE cfg)
                             + ucast (AFTER_LAST_LED cfg) + ucast (RELAIS_TRIGGER_TIME cfg),
                  pins := (\<lambda>p. if p = RELAIS_PIN cfg \<or> p \<in> set (LED_PINS cfg) then LOW
                               else pins s p)\<rparr>) \<and>
         shotCycles cfg (butlast (cycle_times cfg t0)) (s\<lparr>state := WAIT_FOR_LIFT\<rparr>) =
           Inr (s\<lparr>state := PAUSE, ledIndex := int (length (LED_PINS cfg)),
                  timer := t0 + of_nat (length (LED_PINS cfg) - 1) * ucast (BLINK_SEQUENCE cfg)
                             + ucast (AFTER_LAST_LED cfg) + ucast (RELAIS_TRIGGER_TIME cfg),
                  pins := (\<lambda>p. if p = RELAIS_PIN cfg \<or> p \<in> set (LED_PINS cfg) then LOW
                               else pins s p)\<rparr>) \<and>
         last (cycle_times cfg t0) - hd (cycle_times cfg t0) =
           of_nat (length (LED_PINS cfg) - 1) * ucast (BLINK_SEQUENCE cfg)
             + ucast (AFTER_LAST_LED cfg) + ucast (RELAIS_TRIGGER_TIME cfg)
             + ucast (PAUSE_AFTER_SHOT cfg) \<and>
         (within_cycle cfg readings
            (s\<lparr>state := BLINK_LEDS, ledIndex := 1, timer := t0,
               pins := (pins s)(LED_PINS cfg ! 0 := HIGH)\<rparr>) \<longrightarrow>
          (\<exists>s'. shotCycles cfg (t0 # readings) (s\<lparr>state := WAIT_FOR_LIFT\<rparr>) = Inr s' \<and>
             (state s' = WAIT_FOR_LIFT \<longrightarrow>
                readings \<noteq> [] \<and>
                s' = s\<lparr>state := WAIT_FOR_LIFT, ledIndex := int (length (LED_PINS cfg)),
                       timer := t0 + of_nat (length (LED_PINS cfg) - 1) * ucast (BLINK_SEQUENCE cfg)
                                  + ucast (AFTER_LAST_LED cfg) + ucast (RELAIS_TRIGGER_TIME cfg),
                       pins := (\<lambda>p. if p = RELAIS_PIN cfg \<or> p \<in> set (LED_PINS cfg) then LOW
                                    else pins s p)\<rparr> \<and>
                last readings - t0 =
                  of_nat (length (LED_PINS cfg) - 1) * ucast (BLINK_SEQUENCE cfg)
                    + ucast (AFTER_LAST_LED cfg) + ucast (RELAIS_TRIGGER_TIME cfg)
                    + ucast (PAUSE_AFTER_SHOT cfg))))"
proof -
  let ?n = "length (LED_PINS cfg)"
  let ?I = "ucast (BLINK_SEQUENCE cfg) :: 32 word"
  let ?t1 = "t0 + of_nat (?n - 1) * ?I"
  let ?t2 = "?t1 + ucast (AFTER_LAST_LED cfg)"
  let ?t3 = "?t2 + ucast (RELAIS_TRIGGER_TIME cfg)"
  let ?t4 = "?t3 + ucast (PAUSE_AFTER_SHOT cfg)"
  let ?s1 = "s\<lparr>state := BLINK_LEDS, ledIndex := 1, timer := t0,
               pins := (pins s)(LED_PINS cfg ! 0 := HIGH)\<rparr>"
  let ?a = "?s1\<lparr>state := TRIGGER_SHOT, ledIndex := int (1 + (?n - 1)), timer := ?t1,
            pins := (\<lambda>p. if p \<in> set (drop 1 (LED_PINS cfg)) then HIGH else pins ?s1 p)\<rparr>"
  from assms have first: "shotCycle cfg t0 (s\<lparr>state := WAIT_FOR_LIFT\<rparr>) = Inr ?s1"
    by (intro shotCycle_first_led) auto
  have tail: "tl (cycle_times cfg t0) = countdown_times t0 ?I (?n - 1) @ [?t2, ?t3, ?t4]"
    by (simp add: cycle_times_def Let_def)
  have cd: "shotCycles cfg (countdown_times t0 ?I (?n - 1)) ?s1 = Inr ?a"
    using assms by (intro countdown) auto
  have w1: "within_cycle cfg (countdown_times t0 ?I (?n - 1)) ?s1"
    using assms by (intro within_cycle_countdown [of _ 1]) auto
  have w2: "within_cycle cfg [?t2, ?t3, ?t4] ?a"
    using within_cycle_after_countdown [of ?a cfg] by simp
  have on_time: "within_cycle cfg (tl (cycle_times cfg t0)) ?s1"
    unfolding tail within_cycle_append cd using w1 w2 by simp
  note old = cycle_at_boundaries [OF assms, of t0 s]
  from assms have tk: "take (Suc 0) (LED_PINS cfg) = [LED_PINS cfg ! 0]"
    by (cases "LED_PINS cfg") auto
  have pins1: "(\<lambda>p. if p \<in> set (take (Suc 0) (LED_PINS cfg)) then HIGH else pins s p) =
      (pins s)(LED_PINS cfg ! 0 := HIGH)"
    unfolding tk by (auto simp: fun_eq_iff)
  have inv: "cycle_inv cfg t0 s ?s1"
    unfolding cycle_inv_def using assms pins1
    by (intro disjI1 exI [of _ "Suc 0"]) simp
  have any: "within_cycle cfg readings ?s1 \<longrightarrow>
          (\<exists>s'. shotCycles cfg (t0 # readings) (s\<lparr>state := WAIT_FOR_LIFT\<rparr>) = Inr s' \<and>
             (state s' = WAIT_FOR_LIFT \<longrightarrow>
                readings \<noteq> [] \<and>
                s' = s\<lparr>state := WAIT_FOR_LIFT, ledIndex := int ?n, timer := ?t3,
                       pins := (\<lambda>p. if p = RELAIS_PIN cfg \<or> p \<in> set (LED_PINS cfg) then LOW
                                    else pins s p)\<rparr> \<and>
                last readings - t0 = of_nat (?n - 1) * ?I
                    + ucast (AFTER_LAST_LED cfg) + ucast (RELAIS_TRIGGER_TIME cfg)
                    + ucast (PAUSE_AFTER_SHOT cfg)))"
  proof
    assume wc: "within_cycle cfg readings ?s1"
    from cycle_run [OF assms inv wc]
    obtain s' where r: "shotCycles cfg readings ?s1 = Inr s'"
      and a: "cycle_inv cfg t0 s s' \<or>
            readings \<noteq> [] \<and>
            s' = s\<lparr>state := WAIT_FOR_LIFT, ledIndex := int ?n, timer := ?t3,
                   pins := (\<lambda>p. if p = RELAIS_PIN cfg \<or> p \<in> set (LED_PINS cfg) then LOW
                                else pins s p)\<rparr> \<and>
            last readings - t0 = of_nat (?n - 1) * ?I
                + ucast (AFTER_LAST_LED cfg) + ucast (RELAIS_TRIGGER_TIME cfg)
                + ucast (PAUSE_AFTER_SHOT cfg)"
      by blast
    from first r have run: "shotCycles cfg (t0 # readings) (s\<lparr>state := WAIT_FOR_LIFT\<rparr>) = Inr s'"
      by simp
    from a cycle_inv_not_idle [of cfg t0 s s'] run show "\<exists>s'. shotCycles cfg (t0 # readings) (s\<lparr>state := WAIT_FOR_LIFT\<rparr>) = Inr s' \<and>
             (state s' = WAIT_FOR_LIFT \<longrightarrow>
                readings \<noteq> [] \<and>
                s' = s\<lparr>state := WAIT_FOR_LIFT, ledIndex := int ?n, timer := ?t3,
                       pins := (\<lambda>p. if p = RELAIS_PIN cfg \<or> p \<in> set (LED_PINS cfg) then LOW
                                    else pins s p)\<rparr> \<and>
                last readings - t0 = of_nat (?n - 1) * ?I
                    + ucast (AFTER_LAST_LED cfg) + ucast (RELAIS_TRIGGER_TIME cfg)
                    + ucast (PAUSE_AFTER_SHOT cfg))"
      by blast
  qed
  from first on_time old any show ?thesis by blast
qed

text \<open>A run of the sketch with two ticks that come early, at 1000 and at 8000.\<close>

lemma sketch_early_run:
  "within_cycle (sketch fl) [1000, 1500, 3000, 3500, 3520, 8000, 8520]
     (power_on\<lparr>state := BLINK_LEDS, ledIndex := 1, timer := 0,
        pins := (pins power_on)(LED_PINS (sketch fl) ! 0 := HIGH)\<rparr>)"
  "shotCycles (sketch fl) (0 # [1000, 1500, 3000, 3500, 3520, 8000, 8520])
     (power_on\<lparr>state := WAIT_FOR_LIFT\<rparr>) = Inr (power_on\<lparr>ledIndex := 3, timer := 3520\<rparr>)"
  by (simp_all add: shotCycle_def sketch_fields duration_def power_on_def LED_PINS_at_def
      digitalWrite_def reset_result fun_eq_iff)


theorem full_cycle_witness:
  "2 \<le> length (LED_PINS (sketch (\<lambda>x. x))) \<and>
   within_cycle (sketch (\<lambda>x. x)) [1000, 1500, 3000, 3500, 3520, 8000, 8520]
     (power_on\<lparr>state := BLINK_LEDS, ledIndex := 1, timer := 0,
        pins := (pins power_on)(LED_PINS (sketch (\<lambda>x. x)) ! 0 := HIGH)\<rparr>) \<and>
   shotCycles (sketch (\<lambda>x. x)) (0 # [1000, 1500, 3000, 3500, 3520, 8000, 8520])
     (power_on\<lparr>state := WAIT_FOR_LIFT\<rparr>) = Inr (power_on\<lparr>ledIndex := 3, timer := 3520\<rparr>) \<and>
   state (power_on\<lparr>ledIndex := 3, timer := 3520\<rparr>) = WAIT_FOR_LIFT \<and>
   last [1000, 1500, 3000, 3500, 3520, 8000, 8520] - 0 = (8520 :: 32 word) \<and>
   cycle_times (sketch (\<lambda>x. x)) 0 = [0, 1500, 3000, 3500, 3520, 8520] \<and>
   shotCycles (sketch (\<lambda>x. x)) [0, 1500, 3000, 3500, 3520, 8520]
       (power_on\<lparr>state := WAIT_FOR_LIFT\<rparr>) =
     Inr (power_on\<lparr>ledIndex := 3, timer := 3520\<rparr>)"
proof -
  let ?sk = "sketch (\<lambda>x. x)"
  let ?ts = "[1000, 1500, 3000, 3500, 3520, 8000, 8520] :: 32 word list"
  have len: "2 \<le> length (LED_PINS ?sk)"
    by (simp add: sketch_fields)
  note wc = sketch_early_run(1) [of "\<lambda>x. x"]
  note run = sketch_early_run(2) [of "\<lambda>x. x"]
  note fc = full_cycle [OF len, of 0 power_on ?ts]
  have idle: "state (power_on\<lparr>ledIndex := 3, timer := 3520\<rparr>) = WAIT_FOR_LIFT"
    by (simp add: power_on_def)
  from fc wc run idle have "last ?ts - 0 =
      of_nat (length (LED_PINS ?sk) - 1) * ucast (BLINK_SEQUENCE ?sk)
        + ucast (AFTER_LAST_LED ?sk) + ucast (RELAIS_TRIGGER_TIME ?sk)
        + ucast (PAUSE_AFTER_SHOT ?sk)"
    by auto
  then have elapsed: "last ?ts - 0 = (8520 :: 32 word)"
    by (simp add: sketch_fields)
  have p: "power_on\<lparr>state := WAIT_FOR_LIFT, ledIndex := int (length (LED_PINS ?sk)),
        timer := 0 + of_nat (length (LED_PINS ?sk) - 1) * ucast (BLINK_SEQUENCE ?sk)
                   + ucast (AFTER_LAST_LED ?sk) + ucast (RELAIS_TRIGGER_TIME ?sk),
        pins := (\<lambda>p. if p = RELAIS_PIN ?sk \<or> p \<in> set (LED_PINS ?sk) then LOW
                     else pins power_on p)\<rparr> = power_on\<lparr>ledIndex := 3, timer := 3520\<rparr>"
    by (auto simp: power_on_def sketch_fields fun_eq_iff)
  have bound: "shotCycles ?sk [0, 1500, 3000, 3500, 3520, 8520] (power_on\<lparr>state := WAIT_FOR_LIFT\<rparr>) =
     Inr (power_on\<lparr>ledIndex := 3, timer := 3520\<rparr>)"
    using fc [THEN conjunct2, THEN conjunct2, THEN conjunct1]
    unfolding sketch_cycle_times p .
  from len wc run idle elapsed sketch_cycle_times [of "\<lambda>x. x"] bound show ?thesis
    by blast
qed

section \<open>The tick loop\<close>

text \<open>\<^verbatim>\<open>isTilted\<close> touches only its own two variables.\<close>

lemma isTilted_frame:
  "state (snd (isTilted fl cfg pin s)) = state s"
  "pins (snd (isTilted fl cfg pin s)) = pins s"
  "ledIndex (snd (isTilted fl cfg pin s)) = ledIndex s"
  "timer (snd (isTilted fl cfg pin s)) = timer s"
  "modes (snd (isTilted fl cfg pin s)) = modes s"
  by (simp_all add: isTilted_def Let_def)

lemma LED_PINS_at_mem:
  "LED_PINS_at cfg i = Inr p \<Longrightarrow> p \<in> set (LED_PINS cfg)"
  by (auto simp: LED_PINS_at_def LED_COUNT_def split: if_splits)

lemma boot_ticks:
  "boot fl cfg readings =
     ticks fl cfg readings
       (power_on\<lparr>state := WAIT_FOR_LIFT,
          modes := (\<lambda>p. if p \<in> set (LED_PINS cfg) \<or> p = RELAIS_PIN cfg then OUTPUT
                        else if p = TILT_PIN cfg then INPUT_PULLUP else modes power_on p)\<rparr>)"
  by (simp add: boot_def setup_board_result)

text \<open>A run of the sketch as written in exact arithmetic: the filter needs two ticks to
  reach the high threshold, then one cycle up to the shot.\<close>

lemma sketch_boot:
  "boot (\<lambda>x. x) (sketch (\<lambda>x. x))
       [(HIGH, 0), (HIGH, 10), (HIGH, 1510), (HIGH, 3010), (HIGH, 3510)] =
     Inr \<lparr> state = SHOT_DONE, tilted = True, tiltLevel = 31 / 32, ledIndex = 3, timer = 3510,
           pins = (\<lambda>p. p = 3 \<or> p = 4 \<or> p = 5 \<or> p = 6),
           modes = (\<lambda>p. if p = 3 \<or> p = 4 \<or> p = 5 \<or> p = 6 then OUTPUT
                         else if p = 12 then INPUT_PULLUP else INPUT) \<rparr>"
  by (auto simp: boot_def setup_board_result power_on_def loop_def isTilted_exact Let_def
      shotCycle_def sketch_fields LED_PINS_at_def digitalWrite_def fun_eq_iff)

subsection \<open>The relay\<close>

lemma shotCycle_relais:
  assumes "RELAIS_PIN cfg \<notin> set (LED_PINS cfg)"
    and "pins s (RELAIS_PIN cfg) \<longrightarrow> state s = SHOT_DONE"
    and "shotCycle cfg millis s = Inr s'"
  shows "pins s' (RELAIS_PIN cfg) \<longrightarrow> state s' = SHOT_DONE"
proof (cases "state s")
  case WAIT_FOR_LIFT
  with assms show ?thesis
    by (auto simp: shotCycle_def digitalWrite_def Let_def dest: LED_PINS_at_mem
        split: sum.splits if_splits)
next
  case BLINK_LEDS
  with assms show ?thesis
    by (auto simp: shotCycle_def digitalWrite_def Let_def dest: LED_PINS_at_mem
        split: sum.splits if_splits)
next
  case TRIGGER_SHOT
  with assms show ?thesis
    by (auto simp: shotCycle_def digitalWrite_def Let_def split: if_splits)
next
  case SHOT_DONE
  with assms show ?thesis
    by (auto simp: shotCycle_def reset_result Let_def split: if_splits)
next
  case PAUSE
  with assms show ?thesis
    by (auto simp: shotCycle_def Let_def split: if_splits)
qed

lemma loop_relais:
  assumes "RELAIS_PIN cfg \<notin> set (LED_PINS cfg)"
    and "pins s (RELAIS_PIN cfg) \<longrightarrow> state s = SHOT_DONE"
    and "loop fl cfg pin millis s = Inr s'"
  shows "pins s' (RELAIS_PIN cfg) \<longrightarrow> state s' = SHOT_DONE"
proof -
  obtain t s1 where it: "isTilted fl cfg pin s = (t, s1)"
    by (cases "isTilted fl cfg pin s")
  then have s1: "state s1 = state s" "pins s1 = pins s"
    using isTilted_frame(1,2) [of fl cfg pin s] by simp_all
  show ?thesis
  proof (cases t)
    case True
    with it assms(3) have "shotCycle cfg millis s1 = Inr s'"
      by (simp add: loop_def)
    with assms(1,2) s1 show ?thesis
      by (intro shotCycle_relais [of cfg s1 millis s']) simp_all
  next
    case False
    with it assms(2,3) s1 show ?thesis
      by (auto simp: loop_def reset_result split: if_splits)
  qed
qed

lemma ticks_relais:
  assumes "RELAIS_PIN cfg \<notin> set (LED_PINS cfg)"
    and "pins s (RELAIS_PIN cfg) \<longrightarrow> state s = SHOT_DONE"
    and "ticks fl cfg readings s = Inr s'"
  shows "pins s' (RELAIS_PIN cfg) \<longrightarrow> state s' = SHOT_DONE"
  using assms(2,3)
proof (induction readings arbitrary: s)
  case Nil
  then show ?case by simp
next
  case (Cons r readings)
  obtain pin millis where r: "r = (pin, millis)" by (cases r)
  with Cons.prems(2) obtain s1 where
    s1: "loop fl cfg pin millis s = Inr s1" and rest: "ticks fl cfg readings s1 = Inr s'"
    by (auto split: sum.splits)
  from assms(1) Cons.prems(1) s1 have "pins s1 (RELAIS_PIN cfg) \<longrightarrow> state s1 = SHOT_DONE"
    by (rule loop_relais)
  then show ?case using rest by (rule Cons.IH)
qed

text \<open>
  Claim C9. In every state that \<^verbatim>\<open>setup\<close> followed by any number of ticks reaches
  from power-on, whatever the pin and clock readings, the relay output is high only if
  \<open>state\<close> is \<open>SHOT_DONE\<close>. The relay pin must not be one of the LED pins, as in the
  sketch (pin 3 against pins 4, 5, 6).
\<close>

theorem relais_high_only_in_SHOT_DONE:
  assumes "RELAIS_PIN cfg \<notin> set (LED_PINS cfg)"
    and "boot fl cfg readings = Inr s"
    and "pins s (RELAIS_PIN cfg) = HIGH"
  shows "state s = SHOT_DONE"
proof -
  let ?s0 = "power_on\<lparr>state := WAIT_FOR_LIFT,
            modes := (\<lambda>p. if p \<in> set (LED_PINS cfg) \<or> p = RELAIS_PIN cfg then OUTPUT
                          else if p = TILT_PIN cfg then INPUT_PULLUP else modes power_on p)\<rparr>"
  from assms(2) have run: "ticks fl cfg readings ?s0 = Inr s"
    by (simp add: boot_ticks)
  have "pins ?s0 (RELAIS_PIN cfg) \<longrightarrow> state ?s0 = SHOT_DONE"
    by (simp add: power_on_def)
  with assms(1) have "pins s (RELAIS_PIN cfg) \<longrightarrow> state s = SHOT_DONE"
    using run by (rule ticks_relais)
  with assms(3) show ?thesis by simp
qed

theorem relais_high_only_in_SHOT_DONE_witness:
  "RELAIS_PIN (sketch (\<lambda>x. x)) \<notin> set (LED_PINS (sketch (\<lambda>x. x))) \<and>
   boot (\<lambda>x. x) (sketch (\<lambda>x. x))
       [(HIGH, 0), (HIGH, 10), (HIGH, 1510), (HIGH, 3010), (HIGH, 3510)] =
     Inr \<lparr> state = SHOT_DONE, tilted = True, tiltLevel = 31 / 32, ledIndex = 3, timer = 3510,
           pins = (\<lambda>p. p = 3 \<or> p = 4 \<or> p = 5 \<or> p = 6),
           modes = (\<lambda>p. if p = 3 \<or> p = 4 \<or> p = 5 \<or> p = 6 then OUTPUT
                         else if p = 12 then INPUT_PULLUP else INPUT) \<rparr> \<and>
   pins \<lparr> state = SHOT_DONE, tilted = True, tiltLevel = 31 / 32, ledIndex = 3, timer = 3510,
           pins = (\<lambda>p. p = 3 \<or> p = 4 \<or> p = 5 \<or> p = 6),
           modes = (\<lambda>p. if p = 3 \<or> p = 4 \<or> p = 5 \<or> p = 6 then OUTPUT
                         else if p = 12 then INPUT_PULLUP else INPUT) \<rparr>
        (RELAIS_PIN (sketch (\<lambda>x. x))) = HIGH \<and>
   state \<lparr> state = SHOT_DONE, tilted = True, tiltLevel = 31 / 32, ledIndex = 3, timer = 3510,
           pins = (\<lambda>p. p = 3 \<or> p = 4 \<or> p = 5 \<or> p = 6),
           modes = (\<lambda>p. if p = 3 \<or> p = 4 \<or> p = 5 \<or> p = 6 then OUTPUT
                         else if p = 12 then INPUT_PULLUP else INPUT) \<rparr> = SHOT_DONE"
proof -
  have a: "RELAIS_PIN (sketch (\<lambda>x. x)) \<notin> set (LED_PINS (sketch (\<lambda>x. x)))"
    by (simp add: sketch_fields)
  have c: "pins \<lparr> state = SHOT_DONE, tilted = True, tiltLevel = 31 / 32, ledIndex = 3,
           timer = 3510, pins = (\<lambda>p. p = 3 \<or> p = 4 \<or> p = 5 \<or> p = 6),
           modes = (\<lambda>p. if p = 3 \<or> p = 4 \<or> p = 5 \<or> p = 6 then OUTPUT
                         else if p = 12 then INPUT_PULLUP else INPUT) \<rparr>
        (RELAIS_PIN (sketch (\<lambda>x. x))) = HIGH"
    by (simp add: sketch_fields)
  from relais_high_only_in_SHOT_DONE [OF a sketch_boot c] a sketch_boot c
  show ?thesis by blast
qed

subsection \<open>The index into the LED pins\<close>

lemma shotCycle_in_bounds:
  assumes "2 \<le> LED_COUNT cfg"
    and "state s = BLINK_LEDS \<longrightarrow> 1 \<le> ledIndex s \<and> ledIndex s < LED_COUNT cfg"
    and "state s = TRIGGER_SHOT \<longrightarrow> ledIndex s = LED_COUNT cfg"
  shows "\<exists>s'. shotCycle cfg millis s = Inr s' \<and>
           (state s' = BLINK_LEDS \<longrightarrow> 1 \<le> ledIndex s' \<and> ledIndex s' < LED_COUNT cfg) \<and>
           (state s' = TRIGGER_SHOT \<longrightarrow> ledIndex s' = LED_COUNT cfg)"
proof (cases "state s")
  case WAIT_FOR_LIFT
  with assms show ?thesis
    by (simp add: shotCycle_def digitalWrite_def Let_def LED_PINS_at_def)
next
  case BLINK_LEDS
  with assms show ?thesis
    by (auto simp: shotCycle_def digitalWrite_def Let_def LED_PINS_at_def)
next
  case TRIGGER_SHOT
  with assms show ?thesis
    by (simp add: shotCycle_def digitalWrite_def Let_def)
next
  case SHOT_DONE
  with assms show ?thesis
    by (simp add: shotCycle_def reset_result Let_def)
next
  case PAUSE
  with assms show ?thesis
    by (simp add: shotCycle_def Let_def)
qed

lemma loop_in_bounds:
  assumes "2 \<le> LED_COUNT cfg"
    and "state s = BLINK_LEDS \<longrightarrow> 1 \<le> ledIndex s \<and> ledIndex s < LED_COUNT cfg"
    and "state s = TRIGGER_SHOT \<longrightarrow> ledIndex s = LED_COUNT cfg"
  shows "\<exists>s'. loop fl cfg pin millis s = Inr s' \<and>
           (state s' = BLINK_LEDS \<longrightarrow> 1 \<le> ledIndex s' \<and> ledIndex s' < LED_COUNT cfg) \<and>
           (state s' = TRIGGER_SHOT \<longrightarrow> ledIndex s' = LED_COUNT cfg)"
proof -
  obtain t s1 where it: "isTilted fl cfg pin s = (t, s1)"
    by (cases "isTilted fl cfg pin s")
  then have s1: "state s1 = state s" "ledIndex s1 = ledIndex s"
    using isTilted_frame(1,3) [of fl cfg pin s] by simp_all
  show ?thesis
  proof (cases t)
    case True
    with it have "loop fl cfg pin millis s = shotCycle cfg millis s1"
      by (simp add: loop_def)
    moreover from assms s1 have "\<exists>s'. shotCycle cfg millis s1 = Inr s' \<and>
           (state s' = BLINK_LEDS \<longrightarrow> 1 \<le> ledIndex s' \<and> ledIndex s' < LED_COUNT cfg) \<and>
           (state s' = TRIGGER_SHOT \<longrightarrow> ledIndex s' = LED_COUNT cfg)"
      by (intro shotCycle_in_bounds) simp_all
    ultimately show ?thesis by simp
  next
    case False
    with it assms s1 show ?thesis
      by (simp add: loop_def reset_result)
  qed
qed

lemma ticks_in_bounds:
  assumes "2 \<le> LED_COUNT cfg"
    and "state s = BLINK_LEDS \<longrightarrow> 1 \<le> ledIndex s \<and> ledIndex s < LED_COUNT cfg"
    and "state s = TRIGGER_SHOT \<longrightarrow> ledIndex s = LED_COUNT cfg"
  shows "\<exists>s'. ticks fl cfg readings s = Inr s' \<and>
           (state s' = BLINK_LEDS \<longrightarrow> 1 \<le> ledIndex s' \<and> ledIndex s' < LED_COUNT cfg) \<and>
           (state s' = TRIGGER_SHOT \<longrightarrow> ledIndex s' = LED_COUNT cfg)"
  using assms(2,3)
proof (induction readings arbitrary: s)
  case Nil
  then show ?case by simp
next
  case (Cons r readings)
  obtain pin millis where r: "r = (pin, millis)" by (cases r)
  from loop_in_bounds [OF assms(1) Cons.prems, of fl pin millis]
  obtain s1 where s1: "loop fl cfg pin millis s = Inr s1"
    and i1: "state s1 = BLINK_LEDS \<longrightarrow> 1 \<le> ledIndex s1 \<and> ledIndex s1 < LED_COUNT cfg"
    and i2: "state s1 = TRIGGER_SHOT \<longrightarrow> ledIndex s1 = LED_COUNT cfg"
    by blast
  from Cons.IH [OF i1 i2] r s1 show ?case by simp
qed

text \<open>
  Claim C10. With at least two LEDs (the sketch has three), \<^verbatim>\<open>setup\<close> followed by any
  number of ticks, whatever the readings, never reads outside \<^verbatim>\<open>LED_PINS\<close>: the run
  returns a state and does not stop with \<open>ArrayIndexOutOfBounds\<close>, and so does a further
  call of \<^verbatim>\<open>shotCycle\<close> in that state. In \<open>BLINK_LEDS\<close> the index is between 0 and
  \<open>LED_COUNT - 1\<close>, and \<open>BLINK_LEDS\<close> is left for \<open>TRIGGER_SHOT\<close> with the index
  equal to \<open>LED_COUNT\<close>.
\<close>

theorem LED_PINS_access_in_bounds:
  assumes "2 \<le> LED_COUNT cfg"
  shows "\<exists>s. boot fl cfg readings = Inr s \<and>
           (state s = BLINK_LEDS \<longrightarrow> 0 \<le> ledIndex s \<and> ledIndex s \<le> LED_COUNT cfg - 1) \<and>
           (state s = TRIGGER_SHOT \<longrightarrow> ledIndex s = LED_COUNT cfg) \<and>
           (\<exists>s'. shotCycle cfg millis s = Inr s')"
proof -
  let ?s0 = "power_on\<lparr>state := WAIT_FOR_LIFT,
            modes := (\<lambda>p. if p \<in> set (LED_PINS cfg) \<or> p = RELAIS_PIN cfg then OUTPUT
                          else if p = TILT_PIN cfg then INPUT_PULLUP else modes power_on p)\<rparr>"
  have "\<exists>s. ticks fl cfg readings ?s0 = Inr s \<and>
           (state s = BLINK_LEDS \<longrightarrow> 1 \<le> ledIndex s \<and> ledIndex s < LED_COUNT cfg) \<and>
           (state s = TRIGGER_SHOT \<longrightarrow> ledIndex s = LED_COUNT cfg)"
    using assms by (intro ticks_in_bounds) simp_all
  then obtain s where run: "ticks fl cfg readings ?s0 = Inr s"
    and i1: "state s = BLINK_LEDS \<longrightarrow> 1 \<le> ledIndex s \<and> ledIndex s < LED_COUNT cfg"
    and i2: "state s = TRIGGER_SHOT \<longrightarrow> ledIndex s = LED_COUNT cfg"
    by blast
  from shotCycle_in_bounds [OF assms i1 i2, of millis]
  have next_call: "\<exists>s'. shotCycle cfg millis s = Inr s'" by blast
  from run have "boot fl cfg readings = Inr s"
    by (simp add: boot_ticks)
  with i1 i2 next_call show ?thesis by auto
qed

theorem LED_PINS_access_in_bounds_witness:
  "2 \<le> LED_COUNT (sketch (\<lambda>x. x)) \<and>
   (\<exists>s. boot (\<lambda>x. x) (sketch (\<lambda>x. x)) [(HIGH, 0), (HIGH, 10), (HIGH, 1510)] = Inr s \<and>
        state s = BLINK_LEDS \<and> 0 \<le> ledIndex s \<and> ledIndex s \<le> LED_COUNT (sketch (\<lambda>x. x)) - 1 \<and>
        (\<exists>s'. shotCycle (sketch (\<lambda>x. x)) 3010 s = Inr s'))"
proof -
  have n: "2 \<le> LED_COUNT (sketch (\<lambda>x. x))"
    by (simp add: sketch_fields)
  have run: "state (projr (boot (\<lambda>x. x) (sketch (\<lambda>x. x)) [(HIGH, 0), (HIGH, 10), (HIGH, 1510)])) =
      BLINK_LEDS"
    by (simp add: boot_def setup_board_result power_on_def loop_def isTilted_exact Let_def
        shotCycle_def sketch_fields LED_PINS_at_def digitalWrite_def)
  from LED_PINS_access_in_bounds [OF n, of "\<lambda>x. x" "[(HIGH, 0), (HIGH, 10), (HIGH, 1510)]" 3010]
    n run show ?thesis by auto
qed

text \<open>The bound on the number of LEDs is needed: with a single LED the second step of the
  countdown reads \<^verbatim>\<open>LED_PINS[1]\<close>.\<close>

lemma one_LED_out_of_bounds:
  "boot (\<lambda>x. x) ((sketch (\<lambda>x. x))\<lparr>LED_PINS := [4]\<rparr>) [(HIGH, 0), (HIGH, 10), (HIGH, 1510)] =
     Inl ArrayIndexOutOfBounds"
  by (simp add: boot_def setup_board_result power_on_def loop_def isTilted_exact Let_def
      shotCycle_def sketch_def LED_COUNT_def LED_PINS_at_def digitalWrite_def)

section \<open>Rounding to single precision\<close>

lemma rne_of_int: "rne (of_int k) = k"
  by (simp add: rne_def)

lemma rne_mono: "y \<le> z \<Longrightarrow> rne y \<le> rne z"
proof -
  assume yz: "y \<le> z"
  then have f: "\<lfloor>y\<rfloor> \<le> \<lfloor>z\<rfloor>" by (rule floor_mono)
  have ly: "rne y \<le> \<lfloor>y\<rfloor> + 1" and lz: "\<lfloor>z\<rfloor> \<le> rne z"
    by (simp_all add: rne_def Let_def)
  show ?thesis
  proof (cases "\<lfloor>y\<rfloor> = \<lfloor>z\<rfloor>")
    case True
    with yz show ?thesis
      by (auto simp: rne_def Let_def)
  next
    case False
    with f have "\<lfloor>y\<rfloor> + 1 \<le> \<lfloor>z\<rfloor>" by simp
    with ly lz show ?thesis by linarith
  qed
qed

lemma rne_upper: "of_int (rne y) \<le> y + 1 / 2"
  by (auto simp: rne_def Let_def) linarith+

lemma rne_le: "y \<le> of_int k \<Longrightarrow> rne y \<le> k"
  using rne_mono [of y "of_int k"] by (simp add: rne_of_int)

lemma rne_ge: "of_int k \<le> y \<Longrightarrow> k \<le> rne y"
  using rne_mono [of "of_int k" y] by (simp add: rne_of_int)

lemma binary32_ulp_pos: "0 < binary32_ulp x"
  by (simp add: binary32_ulp_def)

lemma binary32_0: "binary32 0 = 0"
  by (simp add: binary32_def)

lemma binary32_minus: "binary32 (- x) = - binary32 x"
  by (simp add: binary32_def binary32_ulp_def binary32_exponent_def)

lemma ulp_exponent: "binary32_ulp x = 2 powr (of_int (binary32_exponent x) - 23)"
  by (simp add: binary32_ulp_def)

lemma exponent_upper:
  assumes "0 < x"
  shows "x < 2 powr (of_int (binary32_exponent x) + 1)"
proof -
  have "x < 2 powr (of_int \<lfloor>log 2 x\<rfloor> + 1)"
    using assms floor_log_eq_powr_iff [of x 2 "\<lfloor>log 2 x\<rfloor>"] by simp
  also have "\<dots> \<le> 2 powr (of_int (binary32_exponent x) + 1)"
    using assms by (simp add: binary32_exponent_def)
  finally show ?thesis .
qed

lemma exponent_lower:
  assumes "0 < x" "- 126 \<le> \<lfloor>log 2 x\<rfloor>"
  shows "2 powr (of_int (binary32_exponent x)) \<le> x"
proof -
  from assms have "binary32_exponent x = \<lfloor>log 2 x\<rfloor>"
    by (simp add: binary32_exponent_def)
  then show ?thesis
    using assms floor_log_eq_powr_iff [of x 2 "\<lfloor>log 2 x\<rfloor>"] by simp
qed

lemma exponent_mono:
  assumes "0 < x" "x \<le> y"
  shows "binary32_exponent x \<le> binary32_exponent y"
proof -
  from assms have "log 2 x \<le> log 2 y" by simp
  then have "\<lfloor>log 2 x\<rfloor> \<le> \<lfloor>log 2 y\<rfloor>" by (rule floor_mono)
  with assms show ?thesis by (simp add: binary32_exponent_def)
qed

lemma exponent_eqI:
  assumes "- 126 \<le> e" "2 powr (of_int e) \<le> x" "x < 2 powr (of_int e + 1)"
  shows "binary32_exponent x = e"
proof -
  have "0 < 2 powr (of_int e :: real)" by simp
  with assms(2) have x: "0 < x" by linarith
  with assms have "\<lfloor>log 2 x\<rfloor> = e"
    using floor_log_eq_powr_iff [of x 2 e] by simp
  with assms(1) x show ?thesis by (simp add: binary32_exponent_def)
qed

lemma binary32_pos:
  assumes "0 < x"
  shows "binary32 x = of_int (rne (x / binary32_ulp x)) * binary32_ulp x"
  using assms by (simp add: binary32_def)

lemma powr_24: "2 powr (of_int e + 1) = 2 ^ 24 * 2 powr (of_int e - 23 :: real)"
proof -
  have "2 powr (of_int e + 1) = 2 powr (24 + (of_int e - 23) :: real)"
    by (simp add: add.commute)
  also have "\<dots> = 2 powr 24 * 2 powr (of_int e - 23 :: real)" by (rule powr_add)
  finally show ?thesis by simp
qed

lemma powr_23: "2 powr (of_int e) = 2 ^ 23 * 2 powr (of_int e - 23 :: real)"
proof -
  have "2 powr (of_int e) = 2 powr (23 + (of_int e - 23) :: real)" by simp
  also have "\<dots> = 2 powr 23 * 2 powr (of_int e - 23 :: real)" by (rule powr_add)
  finally show ?thesis by simp
qed

lemma binary32_upper:
  assumes "0 < x"
  shows "binary32 x \<le> 2 powr (of_int (binary32_exponent x) + 1)"
proof -
  let ?u = "binary32_ulp x"
  have u: "0 < ?u" by (rule binary32_ulp_pos)
  have "x < 2 ^ 24 * ?u"
    using exponent_upper [OF assms] unfolding powr_24 ulp_exponent .
  with u have "x / ?u \<le> of_int (2 ^ 24)"
    by (simp add: pos_divide_le_eq)
  then have "rne (x / ?u) \<le> 2 ^ 24" by (rule rne_le)
  then have "of_int (rne (x / ?u)) \<le> (2 ^ 24 :: real)"
    by (metis of_int_le_iff of_int_numeral of_int_power)
  with u have "of_int (rne (x / ?u)) * ?u \<le> 2 ^ 24 * ?u"
    by (simp add: mult_right_mono)
  then show ?thesis
    unfolding binary32_pos [OF assms] powr_24 ulp_exponent .
qed

lemma binary32_lower:
  assumes "0 < x" "- 126 \<le> \<lfloor>log 2 x\<rfloor>"
  shows "2 powr (of_int (binary32_exponent x)) \<le> binary32 x"
proof -
  let ?u = "binary32_ulp x"
  have u: "0 < ?u" by (rule binary32_ulp_pos)
  have "2 ^ 23 * ?u \<le> x"
    using exponent_lower [OF assms] unfolding powr_23 ulp_exponent .
  with u have "of_int (2 ^ 23) \<le> x / ?u"
    by (simp add: pos_le_divide_eq)
  then have "2 ^ 23 \<le> rne (x / ?u)" by (rule rne_ge)
  then have "(2 ^ 23 :: real) \<le> of_int (rne (x / ?u))"
    by (metis of_int_le_iff of_int_numeral of_int_power)
  with u have "2 ^ 23 * ?u \<le> of_int (rne (x / ?u)) * ?u"
    by (simp add: mult_right_mono)
  then show ?thesis
    unfolding binary32_pos [OF assms(1)] powr_23 ulp_exponent .
qed

lemma binary32_nonneg:
  assumes "0 \<le> x"
  shows "0 \<le> binary32 x"
proof (cases "x = 0")
  case True
  then show ?thesis by (simp add: binary32_0)
next
  case False
  with assms have x: "0 < x" by simp
  have "0 \<le> x / binary32_ulp x"
    using x binary32_ulp_pos [of x] by simp
  then have "0 \<le> rne (x / binary32_ulp x)"
    using rne_ge [of 0 "x / binary32_ulp x"] by simp
  then show ?thesis
    using binary32_ulp_pos [of x] by (simp add: binary32_pos [OF x])
qed

lemma binary32_mono_pos:
  assumes "0 < x" "x \<le> y"
  shows "binary32 x \<le> binary32 y"
proof -
  from assms have y: "0 < y" by simp
  have le: "binary32_exponent x \<le> binary32_exponent y"
    using assms by (rule exponent_mono)
  show ?thesis
  proof (cases "binary32_exponent x = binary32_exponent y")
    case True
    then have u: "binary32_ulp y = binary32_ulp x"
      by (simp add: ulp_exponent)
    have "x / binary32_ulp x \<le> y / binary32_ulp x"
      using assms binary32_ulp_pos [of x] by (simp add: divide_right_mono)
    then have "rne (x / binary32_ulp x) \<le> rne (y / binary32_ulp x)"
      by (rule rne_mono)
    then have "of_int (rne (x / binary32_ulp x)) * binary32_ulp x \<le>
        of_int (rne (y / binary32_ulp x)) * binary32_ulp x"
      using binary32_ulp_pos [of x] by (simp add: mult_right_mono)
    then show ?thesis
      unfolding binary32_pos [OF assms(1)] binary32_pos [OF y] u .
  next
    case False
    with le have lt: "binary32_exponent x + 1 \<le> binary32_exponent y" by simp
    then have "- 126 < binary32_exponent y"
      by (simp add: binary32_exponent_def)
    then have normal: "- 126 \<le> \<lfloor>log 2 y\<rfloor>"
      using y unfolding binary32_exponent_def by linarith
    have "binary32 x \<le> 2 powr (of_int (binary32_exponent x) + 1)"
      using assms(1) by (rule binary32_upper)
    also have "\<dots> \<le> 2 powr (of_int (binary32_exponent y))"
      using lt by (simp add: of_int_le_iff [symmetric] del: of_int_le_iff) 
    also have "\<dots> \<le> binary32 y"
      using y normal by (rule binary32_lower)
    finally show ?thesis .
  qed
qed

lemma binary32_mono:
  assumes "x \<le> y"
  shows "binary32 x \<le> binary32 y"
proof -
  consider "0 < x" | "x \<le> 0" "0 \<le> y" | "y < 0" by linarith
  then show ?thesis
  proof cases
    case 1
    then show ?thesis using assms by (rule binary32_mono_pos)
  next
    case 2
    from 2(1) have "0 \<le> binary32 (- x)" by (intro binary32_nonneg) simp
    then have "binary32 x \<le> 0" by (simp add: binary32_minus)
    also from 2(2) have "0 \<le> binary32 y" by (rule binary32_nonneg)
    finally show ?thesis .
  next
    case 3
    with assms have "binary32 (- y) \<le> binary32 (- x)"
      by (intro binary32_mono_pos) simp_all
    then show ?thesis by (simp add: binary32_minus)
  qed
qed

lemma powr_int_nonneg: "0 \<le> m \<Longrightarrow> 2 powr (of_int m) = (of_int (2 ^ nat m) :: real)"
  by (simp add: powr_realpow [symmetric])

text \<open>A number with at most 24 significant bits and an exponent in range is a float.\<close>

lemma binary32_representable:
  assumes k: "0 < k" "k < 2 ^ 24" and q: "- 149 \<le> q"
  shows "binary32 (of_int k * 2 powr (of_int q)) = of_int k * 2 powr (of_int q)"
proof -
  let ?v = "of_int k * 2 powr (of_int q) :: real"
  have v: "0 < ?v" using k by simp
  have "of_int k < (2 ^ 24 :: real)"
    using k(2) by (metis of_int_less_iff of_int_numeral of_int_power)
  then have "?v < 2 ^ 24 * 2 powr (of_int q)"
    by (simp add: mult_strict_right_mono)
  also have "\<dots> = 2 powr (of_int (q + 24))"
    using powr_add [of "2::real" 24 "of_int q"] by (simp add: add.commute)
  finally have "log 2 ?v < of_int (q + 24)"
    using v log_less_iff [of 2 ?v "of_int (q + 24)"] by simp
  then have "\<lfloor>log 2 ?v\<rfloor> < q + 24"
    by (simp only: floor_less_iff)
  with q v have e: "binary32_exponent ?v \<le> q + 23"
    by (simp add: binary32_exponent_def)
  define m where "m = q + 23 - binary32_exponent ?v"
  from e have m: "0 \<le> m" by (simp add: m_def)
  have u: "binary32_ulp ?v = 2 powr (of_int q - of_int m)"
    by (simp add: ulp_exponent m_def)
  have split: "2 powr (of_int q) = 2 powr (of_int m) * 2 powr (of_int q - of_int m :: real)"
    using powr_add [of "2::real" "of_int m" "of_int q - of_int m"] by simp
  have "?v / binary32_ulp ?v = of_int k * 2 powr (of_int m)"
    unfolding u by (subst split) simp
  also have "\<dots> = of_int (k * 2 ^ nat m)"
    using m by (simp add: powr_int_nonneg)
  finally have "rne (?v / binary32_ulp ?v) = k * 2 ^ nat m"
    by (simp only: rne_of_int)
  then have "binary32 ?v = of_int (k * 2 ^ nat m) * 2 powr (of_int q - of_int m)"
    unfolding binary32_pos [OF v] u by simp
  also have "\<dots> = of_int k * (2 powr (of_int m) * 2 powr (of_int q - of_int m))"
    using m by (simp add: powr_int_nonneg)
  also have "\<dots> = ?v"
    by (simp only: split [symmetric])
  finally show ?thesis .
qed

lemma binary32_idem_pos:
  assumes "0 < x"
  shows "binary32 (binary32 x) = binary32 x"
proof -
  let ?u = "binary32_ulp x"
  let ?k = "rne (x / ?u)"
  let ?q = "binary32_exponent x - 23"
  have u: "?u = 2 powr (of_int ?q)"
    by (simp add: ulp_exponent)
  have q: "- 149 \<le> ?q"
    by (simp add: binary32_exponent_def)
  have fx: "binary32 x = of_int ?k * 2 powr (of_int ?q)"
    unfolding binary32_pos [OF assms] u ..
  have "0 \<le> x / ?u" using assms binary32_ulp_pos [of x] by simp
  then have k0: "0 \<le> ?k" using rne_ge [of 0 "x / ?u"] by simp
  have "x < 2 ^ 24 * ?u"
    using exponent_upper [OF assms] unfolding powr_24 ulp_exponent .
  then have "x / ?u \<le> of_int (2 ^ 24)"
    using binary32_ulp_pos [of x] by (simp add: pos_divide_le_eq)
  then have k24: "?k \<le> 2 ^ 24" by (rule rne_le)
  consider "?k = 0" | "0 < ?k" "?k < 2 ^ 24" | "?k = 2 ^ 24"
    using k0 k24 by linarith
  then show ?thesis
  proof cases
    case 1
    then show ?thesis by (simp add: fx binary32_0)
  next
    case 2
    then show ?thesis
      unfolding fx using q by (intro binary32_representable)
  next
    case 3
    have two: "2 powr (of_int (?q + 1)) = 2 * 2 powr (of_int ?q :: real)"
      using powr_add [of "2::real" "of_int ?q" 1] by simp
    have fx': "binary32 x = of_int (2 ^ 23) * 2 powr (of_int (?q + 1))"
      unfolding fx 3 two by simp
    show ?thesis
      unfolding fx' using q by (intro binary32_representable) simp_all
  qed
qed

lemma binary32_idem: "binary32 (binary32 x) = binary32 x"
proof -
  consider "0 < x" | "x = 0" | "x < 0" by linarith
  then show ?thesis
  proof cases
    case 1
    then show ?thesis by (rule binary32_idem_pos)
  next
    case 2
    then show ?thesis by (simp add: binary32_0)
  next
    case 3
    then have "binary32 (binary32 (- x)) = binary32 (- x)"
      by (intro binary32_idem_pos) simp
    then show ?thesis by (simp add: binary32_minus)
  qed
qed

lemma binary32_1: "binary32 1 = 1"
  using binary32_representable [of 1 0] by simp

lemma binary32_half: "binary32 (1 / 2) = 1 / 2"
  using binary32_representable [of 1 "- 1"] by (simp add: powr_minus_divide)

lemma binary32_error:
  assumes "0 \<le> x" "x \<le> 1"
  shows "binary32 x \<le> x + 1 / 2 ^ 25"
proof -
  consider "x = 0" | "x = 1" | "0 < x" "x < 1" using assms by linarith
  then show ?thesis
  proof cases
    case 1
    then show ?thesis by (simp add: binary32_0)
  next
    case 2
    then show ?thesis by (simp add: binary32_1)
  next
    case 3
    let ?u = "binary32_ulp x"
    have u: "0 < ?u" by (rule binary32_ulp_pos)
    from 3 have "log 2 x < 0" by simp
    then have "\<lfloor>log 2 x\<rfloor> < 0" by (subst floor_less_iff) simp
    then have "binary32_exponent x \<le> - 1"
      unfolding binary32_exponent_def abs_of_pos [OF 3(1)] by linarith
    then have "of_int (binary32_exponent x) - 23 \<le> (- 24 :: real)"
      by linarith
    then have "?u \<le> 2 powr (- 24)"
      unfolding ulp_exponent by (intro powr_mono) simp_all
    also have "\<dots> = 1 / 2 ^ 24"
      by (simp add: powr_minus_divide)
    finally have small: "?u \<le> 1 / 2 ^ 24" .
    have "of_int (rne (x / ?u)) * ?u \<le> (x / ?u + 1 / 2) * ?u"
      using rne_upper [of "x / ?u"] u by (simp only: mult_right_mono less_imp_le)
    also have "\<dots> = x + ?u / 2"
      using u by (simp add: field_simps)
    also have "\<dots> \<le> x + 1 / 2 ^ 25"
      using small by simp
    finally show ?thesis
      unfolding binary32_pos [OF 3(1)] .
  qed
qed

lemma binary32_above_1: "binary32 (1 + 1 / 2 ^ 25) = 1"
proof -
  let ?x = "1 + 1 / 2 ^ 25 :: real"
  have x: "0 < ?x" by simp
  have e: "binary32_exponent ?x = 0"
    by (rule exponent_eqI) simp_all
  have u: "binary32_ulp ?x = 1 / 2 ^ 23"
    unfolding ulp_exponent e by (simp add: powr_minus_divide)
  have d: "?x / binary32_ulp ?x = of_int (2 ^ 23) + 1 / 4"
    unfolding u by simp
  have "rne (?x / binary32_ulp ?x) = 2 ^ 23"
    unfolding d by (simp add: rne_def)
  then show ?thesis
    unfolding binary32_pos [OF x] u by simp
qed

text \<open>IEEE single precision is a rounding in the sense of \<open>float_rounding\<close>, with half
  the spacing of the floats just below 1 as the bound.\<close>

lemma float_rounding_binary32: "float_rounding binary32 (1 / 2 ^ 25)"
  unfolding float_rounding_def
proof (intro conjI allI impI)
  fix x y :: real
  assume "x \<le> y"
  then show "binary32 x \<le> binary32 y" by (rule binary32_mono)
next
  show "binary32 0 = 0" by (rule binary32_0)
next
  fix x
  show "binary32 (binary32 x) = binary32 x" by (rule binary32_idem)
next
  fix x
  show "binary32 (- binary32 x) = - binary32 x"
    by (simp only: binary32_minus binary32_idem)
next
  fix x :: real
  assume "0 \<le> x \<and> x \<le> 1"
  then show "binary32 x \<le> x + 1 / 2 ^ 25" by (elim conjE) (rule binary32_error)
next
  show "binary32 (1 + 1 / 2 ^ 25) \<le> 1" by (simp only: binary32_above_1)
qed

text \<open>So is exact arithmetic.\<close>

lemma float_rounding_exact: "float_rounding (\<lambda>x. x) 0"
  by (simp add: float_rounding_def)

text \<open>The float constants of the sketch in single precision: \<^verbatim>\<open>0.5f\<close> is exact,
  \<^verbatim>\<open>0.7f\<close> is the float below 0.7 and \<^verbatim>\<open>0.3f\<close> the float above 0.3.\<close>

lemma binary32_7_10: "binary32 (7 / 10) = 11744051 / 16777216"
proof -
  let ?x = "7 / 10 :: real"
  have x: "0 < ?x" by simp
  have e: "binary32_exponent ?x = - 1"
    by (rule exponent_eqI) (simp_all add: powr_minus_divide)
  have u: "binary32_ulp ?x = 1 / 2 ^ 24"
    unfolding ulp_exponent e by (simp add: powr_minus_divide)
  have d: "?x / binary32_ulp ?x = of_int 11744051 + 1 / 5"
    unfolding u by simp
  have "rne (?x / binary32_ulp ?x) = 11744051"
    unfolding d by (simp add: rne_def)
  then show ?thesis
    unfolding binary32_pos [OF x] u by simp
qed

lemma binary32_3_10: "binary32 (3 / 10) = 5033165 / 16777216"
proof -
  let ?x = "3 / 10 :: real"
  have x: "0 < ?x" by simp
  have e: "binary32_exponent ?x = - 2"
    by (rule exponent_eqI) (simp_all add: powr_minus_divide)
  have u: "binary32_ulp ?x = 1 / 2 ^ 25"
    unfolding ulp_exponent e by (simp add: powr_minus_divide)
  have d: "?x / binary32_ulp ?x = of_int 10066329 + 3 / 5"
    unfolding u by simp
  have "rne (?x / binary32_ulp ?x) = 10066330"
    unfolding d by (simp add: rne_def)
  then show ?thesis
    unfolding binary32_pos [OF x] u by simp
qed

lemma sketch_binary32:
  "LOW_PASS (sketch binary32) = 1 / 2"
  "THRESHOLD_HIGH (sketch binary32) = 11744051 / 16777216"
  "THRESHOLD_LOW (sketch binary32) = 5033165 / 16777216"
  by (simp_all add: sketch_fields binary32_half binary32_7_10 binary32_3_10)

section \<open>isTilted\<close>

lemma isTilted_step:
  "fst (isTilted fl cfg pin s) = tilted (snd (isTilted fl cfg pin s))"
  "\<not> tilted s \<and> tilted (snd (isTilted fl cfg pin s)) \<longrightarrow>
     THRESHOLD_HIGH cfg \<le> tiltLevel (snd (isTilted fl cfg pin s))"
  "tilted s \<and> \<not> tilted (snd (isTilted fl cfg pin s)) \<longrightarrow>
     tiltLevel (snd (isTilted fl cfg pin s)) \<le> THRESHOLD_LOW cfg"
  "THRESHOLD_LOW cfg < tiltLevel (snd (isTilted fl cfg pin s)) \<and>
   tiltLevel (snd (isTilted fl cfg pin s)) < THRESHOLD_HIGH cfg \<longrightarrow>
     tilted (snd (isTilted fl cfg pin s)) = tilted s"
  by (auto simp: isTilted_def Let_def)

lemma isTilted_states_Suc:
  "i < length samples \<Longrightarrow>
   isTilted_states fl cfg samples s ! Suc i =
     snd (isTilted fl cfg (samples ! i) (isTilted_states fl cfg samples s ! i))"
proof (induction samples arbitrary: s i)
  case Nil
  then show ?case by simp
next
  case (Cons pin rest)
  show ?case
  proof (cases i)
    case 0
    then show ?thesis by (cases rest) simp_all
  next
    case (Suc j)
    with Cons.prems have "j < length rest" by simp
    from Cons.IH [OF this] Suc show ?thesis by simp
  qed
qed

text \<open>
  Claim C2. For every list of pin readings fed to \<^verbatim>\<open>isTilted\<close> one per tick, from any
  state, whatever the rounding and the constants: in tick \<open>i\<close> the debounced output goes
  from false to true only if the filtered level of that tick is at least
  \<^verbatim>\<open>THRESHOLD_HIGH\<close>, from true to false only if it is at most \<^verbatim>\<open>THRESHOLD_LOW\<close>, and it
  does not change when the level is strictly between the two thresholds. The value
  returned is the debounced output after the tick.
\<close>

theorem isTilted_hysteresis:
  assumes "i < length samples"
  shows "(let before = isTilted_states fl cfg samples s ! i;
              after = isTilted_states fl cfg samples s ! Suc i
          in after = snd (isTilted fl cfg (samples ! i) before) \<and>
             fst (isTilted fl cfg (samples ! i) before) = tilted after \<and>
             (\<not> tilted before \<and> tilted after \<longrightarrow> THRESHOLD_HIGH cfg \<le> tiltLevel after) \<and>
             (tilted before \<and> \<not> tilted after \<longrightarrow> tiltLevel after \<le> THRESHOLD_LOW cfg) \<and>
             (THRESHOLD_LOW cfg < tiltLevel after \<and> tiltLevel after < THRESHOLD_HIGH cfg \<longrightarrow>
                tilted after = tilted before))"
  unfolding Let_def isTilted_states_Suc [OF assms]
  using isTilted_step [where fl = fl and cfg = cfg and pin = "samples ! i"
      and s = "isTilted_states fl cfg samples s ! i"]
  by simp

theorem isTilted_hysteresis_witness:
  "(1::nat) < length [HIGH, HIGH] \<and>
   isTilted_states (\<lambda>x. x) (sketch (\<lambda>x. x)) [HIGH, HIGH] power_on =
     [power_on, power_on\<lparr>tiltLevel := 1 / 2\<rparr>, power_on\<lparr>tilted := True, tiltLevel := 3 / 4\<rparr>] \<and>
   \<not> tilted (isTilted_states (\<lambda>x. x) (sketch (\<lambda>x. x)) [HIGH, HIGH] power_on ! 1) \<and>
   tilted (isTilted_states (\<lambda>x. x) (sketch (\<lambda>x. x)) [HIGH, HIGH] power_on ! Suc 1) \<and>
   THRESHOLD_HIGH (sketch (\<lambda>x. x)) \<le>
     tiltLevel (isTilted_states (\<lambda>x. x) (sketch (\<lambda>x. x)) [HIGH, HIGH] power_on ! Suc 1)"
proof -
  have st: "isTilted_states (\<lambda>x. x) (sketch (\<lambda>x. x)) [HIGH, HIGH] power_on =
     [power_on, power_on\<lparr>tiltLevel := 1 / 2\<rparr>, power_on\<lparr>tilted := True, tiltLevel := 3 / 4\<rparr>]"
    by (simp add: isTilted_exact sketch_fields power_on_def Let_def)
  have i: "(1::nat) < length [HIGH, HIGH]" by simp
  have before: "\<not> tilted (isTilted_states (\<lambda>x. x) (sketch (\<lambda>x. x)) [HIGH, HIGH] power_on ! 1)"
    unfolding st by (simp add: power_on_def)
  have after: "tilted (isTilted_states (\<lambda>x. x) (sketch (\<lambda>x. x)) [HIGH, HIGH] power_on ! Suc 1)"
    unfolding st by simp
  from isTilted_hysteresis [OF i, of "\<lambda>x. x" "sketch (\<lambda>x. x)" power_on] before after
  have "THRESHOLD_HIGH (sketch (\<lambda>x. x)) \<le>
     tiltLevel (isTilted_states (\<lambda>x. x) (sketch (\<lambda>x. x)) [HIGH, HIGH] power_on ! Suc 1)"
    by (simp add: Let_def)
  with i st before after show ?thesis by blast
qed

subsection \<open>The filter level\<close>

text \<open>One step of the low-pass filter on a level \<open>l\<close> that is a float in the unit
  interval, towards the sample \<open>x\<close>, with the smoothing factor \<open>a\<close>.\<close>

lemma lowpass_bounds:
  assumes r: "float_rounding fl eps"
    and a: "0 < a" "a \<le> 1"
    and l: "0 \<le> l" "l \<le> 1" "fl l = l"
    and x: "x = 0 \<or> x = 1"
  shows "0 \<le> fl (l + fl (fl (x - l) * a)) \<and> fl (l + fl (fl (x - l) * a)) \<le> 1"
proof -
  from r have mono: "\<And>x y. x \<le> y \<Longrightarrow> fl x \<le> fl y"
    and zero: "fl 0 = 0" and idem: "\<And>x. fl (fl x) = fl x"
    and neg: "\<And>x. fl (- fl x) = - fl x"
    and err: "\<And>x. 0 \<le> x \<Longrightarrow> x \<le> 1 \<Longrightarrow> fl x \<le> x + eps"
    and one: "fl (1 + eps) \<le> 1"
    by (simp_all add: float_rounding_def)
  from x show ?thesis
  proof
    assume x0: "x = 0"
    have nl: "fl (- l) = - l" using neg [of l] l(3) by simp
    have "- l \<le> - l * a" using a l(1) by (simp add: mult_left_le)
    then have "fl (- l) \<le> fl (- l * a)" by (rule mono)
    then have p1: "- l \<le> fl (- l * a)" using nl by simp
    have "- l * a \<le> 0" using a l(1) by simp
    then have "fl (- l * a) \<le> fl 0" by (rule mono)
    then have p2: "fl (- l * a) \<le> 0" using zero by simp
    have "fl 0 \<le> fl (l + fl (- l * a))" using p1 by (intro mono) simp
    moreover have "fl (l + fl (- l * a)) \<le> fl l" using p2 by (intro mono) simp
    ultimately show ?thesis using zero l nl x0 by simp
  next
    assume x1: "x = 1"
    let ?d = "fl (1 - l)"
    have "fl 0 \<le> ?d" using l by (intro mono) simp
    then have d0: "0 \<le> ?d" using zero by simp
    have d1: "?d \<le> 1 - l + eps" using l by (intro err) simp_all
    have "fl 0 \<le> fl (?d * a)" using d0 a by (intro mono) simp
    then have p0: "0 \<le> fl (?d * a)" using zero by simp
    have "?d * a \<le> ?d" using d0 a by (simp add: mult_left_le)
    then have "fl (?d * a) \<le> fl ?d" by (rule mono)
    then have p1: "fl (?d * a) \<le> ?d" using idem by simp
    have "fl l \<le> fl (l + fl (?d * a))" using p0 by (intro mono) simp
    then have lo: "0 \<le> fl (l + fl (?d * a))" using l by simp
    have "l + fl (?d * a) \<le> 1 + eps" using p1 d1 by simp
    then have "fl (l + fl (?d * a)) \<le> fl (1 + eps)" by (rule mono)
    then have "fl (l + fl (?d * a)) \<le> 1" using one by simp
    with lo x1 show ?thesis by simp
  qed
qed

lemma isTilted_level:
  assumes "float_rounding fl eps" "0 < LOW_PASS cfg" "LOW_PASS cfg \<le> 1"
    and "0 \<le> tiltLevel s" "tiltLevel s \<le> 1" "fl (tiltLevel s) = tiltLevel s"
  shows "0 \<le> tiltLevel (snd (isTilted fl cfg pin s)) \<and>
         tiltLevel (snd (isTilted fl cfg pin s)) \<le> 1 \<and>
         fl (tiltLevel (snd (isTilted fl cfg pin s))) = tiltLevel (snd (isTilted fl cfg pin s))"
proof -
  have lv: "tiltLevel (snd (isTilted fl cfg pin s)) =
        fl (tiltLevel s + fl (fl ((if pin then 1 else 0) - tiltLevel s) * LOW_PASS cfg))"
    by (simp add: isTilted_def Let_def)
  from assms(1) have idem: "\<And>x. fl (fl x) = fl x"
    by (simp add: float_rounding_def)
  have "(if pin then 1 else 0) = (0::real) \<or> (if pin then 1 else 0) = (1::real)"
    by simp
  from lowpass_bounds [OF assms(1,2,3,4,5,6) this] idem show ?thesis
    unfolding lv by simp
qed

text \<open>
  Claim C7. For every list of pin readings (each read as 0.0 or 1.0), every smoothing
  factor \<^verbatim>\<open>LOW_PASS\<close> in (0, 1] and every rounding with the properties of
  \<open>float_rounding\<close> (exact arithmetic and IEEE single precision among them), the
  filter level, starting at 0 and
  updated once per tick by \<^verbatim>\<open>isTilted\<close>, is in the interval [0, 1] before and after
  every tick.
\<close>

theorem tiltLevel_in_unit_interval:
  assumes "float_rounding fl eps" and "0 < LOW_PASS cfg" and "LOW_PASS cfg \<le> 1"
    and "tiltLevel s = 0"
  shows "\<forall>s' \<in> set (isTilted_states fl cfg samples s). 0 \<le> tiltLevel s' \<and> tiltLevel s' \<le> 1"
proof -
  from assms(1) have zero: "fl 0 = 0" by (simp add: float_rounding_def)
  have "0 \<le> tiltLevel s \<Longrightarrow> tiltLevel s \<le> 1 \<Longrightarrow> fl (tiltLevel s) = tiltLevel s \<Longrightarrow>
        \<forall>s' \<in> set (isTilted_states fl cfg samples s). 0 \<le> tiltLevel s' \<and> tiltLevel s' \<le> 1"
  proof (induction samples arbitrary: s)
    case Nil
    then show ?case by simp
  next
    case (Cons pin rest)
    from isTilted_level [OF assms(1,2,3) Cons.prems, of pin]
    have "\<forall>s' \<in> set (isTilted_states fl cfg rest (snd (isTilted fl cfg pin s))).
            0 \<le> tiltLevel s' \<and> tiltLevel s' \<le> 1"
      by (intro Cons.IH) simp_all
    with Cons.prems show ?case by simp
  qed
  with assms(4) zero show ?thesis by simp
qed

theorem tiltLevel_in_unit_interval_witness:
  "float_rounding binary32 (1 / 2 ^ 25) \<and>
   0 < LOW_PASS (sketch binary32) \<and> LOW_PASS (sketch binary32) \<le> 1 \<and>
   tiltLevel power_on = 0 \<and>
   list_all (\<lambda>s'. 0 \<le> tiltLevel s' \<and> tiltLevel s' \<le> 1)
     (isTilted_states binary32 (sketch binary32) [HIGH, LOW, HIGH] power_on)"
proof -
  have a: "0 < LOW_PASS (sketch binary32)" "LOW_PASS (sketch binary32) \<le> 1"
    by (simp_all add: sketch_binary32)
  have z: "tiltLevel power_on = 0"
    by (simp add: power_on_def)
  from tiltLevel_in_unit_interval [OF float_rounding_binary32 a z, of "[HIGH, LOW, HIGH]"]
  have "list_all (\<lambda>s'. 0 \<le> tiltLevel s' \<and> tiltLevel s' \<le> 1)
     (isTilted_states binary32 (sketch binary32) [HIGH, LOW, HIGH] power_on)"
    by (simp only: list_all_iff)
  with float_rounding_binary32 a z show ?thesis by blast
qed

end
